theory Spec2Isabelle
  imports Complex_Main "HOL-Library.Word" "HOL-Library.Sublist" "HOL-Library.AList"
begin

section \<open>The retrieval engine: class RAGSystem\<close>

text \<open>
  The class \<^verbatim>\<open>RAGSystem\<close> (the module the routes require as \<^verbatim>\<open>utils/rag\<close>; its text is
  the last part of \<^verbatim>\<open>tyt-ayt-backend-only/utils/database.js\<close>) keeps two insertion-ordered
  \<^verbatim>\<open>Map\<close>s
  (\<^verbatim>\<open>knowledgeBase\<close>, \<^verbatim>\<open>documentChunks\<close>) and a flag \<^verbatim>\<open>initialized\<close>.
  Its methods are embedded below as functions on an explicit state record. Conventions:

  \<^item> a JavaScript string is the list of its UTF-16 code units (\<open>16 word\<close>), so
    \<^verbatim>\<open>length\<close>, \<^verbatim>\<open>slice\<close> and \<^verbatim>\<open>+\<close> are \<open>length\<close>, \<open>drop\<close> and \<open>@\<close>;
  \<^item> a JavaScript number is an exact real or \<^verbatim>\<open>NaN\<close>: rounding, overflow and the sign
    of zero of IEEE-754 doubles are outside the model;
  \<^item> a \<^verbatim>\<open>Map\<close>, and a plain object used as a dictionary, is an association list in
    insertion order; a lookup in a plain object also sees the properties inherited from
    \<^verbatim>\<open>Object.prototype\<close>;
  \<^item> a \<^verbatim>\<open>throw\<close> is the left summand of the result.
\<close>

subsection \<open>Strings\<close>

type_synonym code_unit = "16 word"
type_synonym jsstring = "code_unit list"

text \<open>An ASCII literal as a JavaScript string.\<close>

definition js :: "string \<Rightarrow> jsstring" where
  "js s = map of_char s"

text \<open>
  The code units matched by \<^verbatim>\<open>\s\<close> in a regular expression and stripped by
  \<^verbatim>\<open>String.prototype.trim\<close>: WhiteSpace and LineTerminator of ECMAScript.
\<close>

definition isWhiteSpace :: "code_unit \<Rightarrow> bool" where
  "isWhiteSpace c =
     (c \<in> set [9, 10, 11, 12, 13, 32, 160, 5760, 8232, 8233, 8239, 8287, 12288, 65279]
      \<or> (8192 \<le> c \<and> c \<le> 8202))"

definition trim :: "jsstring \<Rightarrow> jsstring" where
  "trim s = rev (dropWhile isWhiteSpace (rev (dropWhile isWhiteSpace s)))"

text \<open>
  \<^verbatim>\<open>s.split(/[...]+/)\<close> for a character class: the text before the next maximal run
  of separators is one piece, and splitting goes on behind the run. A string without a
  separator (the empty string too) is a single piece.
\<close>

function splitRuns :: "('a \<Rightarrow> bool) \<Rightarrow> 'a list \<Rightarrow> 'a list list" where
  "splitRuns sep s =
     (let seg = takeWhile (\<lambda>c. \<not> sep c) s; rest = dropWhile (\<lambda>c. \<not> sep c) s
      in if rest = [] then [seg] else seg # splitRuns sep (dropWhile sep rest))"
  by pat_completeness auto
termination
proof (relation "measure (\<lambda>(sep, s). length s)")
  show "wf (measure (\<lambda>(sep, s). length s))" by simp
next
  fix sep :: "'a \<Rightarrow> bool" and s seg rest
  assume r: "rest = dropWhile (\<lambda>c. \<not> sep c) s" and ne: "rest \<noteq> []"
  from ne obtain c cs where rc: "rest = c # cs" by (cases rest) auto
  have "sep c" using r rc by (metis hd_dropWhile list.sel(1) ne)
  then have "length (dropWhile sep rest) \<le> length cs"
    using rc by (simp add: length_dropWhile_le)
  moreover have "length rest \<le> length s" using r by (simp add: length_dropWhile_le)
  ultimately show "((sep, dropWhile sep rest), (sep, s)) \<in> measure (\<lambda>(sep, s). length s)"
    using rc by simp
qed

declare splitRuns.simps [simp del]

text \<open>\<^verbatim>\<open>s.slice(-n)\<close> for \<open>n \<ge> 0\<close>; \<^verbatim>\<open>slice(-0)\<close> is \<^verbatim>\<open>slice(0)\<close>, the whole string.\<close>

definition sliceFromEnd :: "nat \<Rightarrow> 'a list \<Rightarrow> 'a list" where
  "sliceFromEnd n s = (if n = 0 then s else drop (length s - n) s)"

text \<open>\<^verbatim>\<open>xs.slice(0, n)\<close> for an integer \<open>n\<close>: a negative end counts from the back.\<close>

definition sliceTo :: "int \<Rightarrow> 'a list \<Rightarrow> 'a list" where
  "sliceTo n xs = (if n < 0 then take (nat (int (length xs) + n)) xs else take (nat n) xs)"

text \<open>\<^verbatim>\<open>Array.prototype.join\<close> on an array of strings.\<close>

fun join :: "jsstring \<Rightarrow> jsstring list \<Rightarrow> jsstring" where
  "join sep [] = []"
| "join sep [x] = x"
| "join sep (x # y # ys) = x @ sep @ join sep (y # ys)"

text \<open>The decimal numeral of an array index, as a template literal prints it.\<close>

function decimal :: "nat \<Rightarrow> jsstring" where
  "decimal n = (if n < 10 then [48 + of_nat n] else decimal (n div 10) @ [48 + of_nat (n mod 10)])"
  by pat_completeness auto
termination
  by (relation "measure id") auto

declare decimal.simps [simp del]

text \<open>The elements of a \<^verbatim>\<open>Set\<close> in iteration order: first occurrences, in order.\<close>

fun uniq :: "'a list \<Rightarrow> 'a list" where
  "uniq [] = []"
| "uniq (x # xs) = x # uniq (filter (\<lambda>y. y \<noteq> x) xs)"

subsection \<open>Numbers\<close>

datatype jsnum = Num real | NaN

fun js_add :: "jsnum \<Rightarrow> jsnum \<Rightarrow> jsnum" where
  "js_add (Num a) (Num b) = Num (a + b)"
| "js_add _ _ = NaN"

fun js_sub :: "jsnum \<Rightarrow> jsnum \<Rightarrow> jsnum" where
  "js_sub (Num a) (Num b) = Num (a - b)"
| "js_sub _ _ = NaN"

fun js_mul :: "jsnum \<Rightarrow> jsnum \<Rightarrow> jsnum" where
  "js_mul (Num a) (Num b) = Num (a * b)"
| "js_mul _ _ = NaN"

fun js_sqrt :: "jsnum \<Rightarrow> jsnum" where
  "js_sqrt (Num a) = (if a < 0 then NaN else Num (sqrt a))"
| "js_sqrt NaN = NaN"

text \<open>
  The model has no infinities. Both divisions embedded with \<open>js_div\<close> have a non-zero
  divisor whenever they are reached (lemmas \<open>calculateTFIDF_total_pos\<close> and
  \<open>cosineSimilarity_divisor\<close> below), so the first branch is never taken there.
\<close>

fun js_div :: "jsnum \<Rightarrow> jsnum \<Rightarrow> jsnum" where
  "js_div (Num a) (Num b) = (if b = 0 then NaN else Num (a / b))"
| "js_div _ _ = NaN"

text \<open>\<^verbatim>\<open>x >= y\<close> and \<^verbatim>\<open>x > 0\<close>: every comparison with \<^verbatim>\<open>NaN\<close> is false.\<close>

fun js_ge :: "jsnum \<Rightarrow> jsnum \<Rightarrow> bool" where
  "js_ge (Num a) (Num b) = (b \<le> a)"
| "js_ge _ _ = False"

fun js_positive :: "jsnum \<Rightarrow> bool" where
  "js_positive (Num a) = (0 < a)"
| "js_positive NaN = False"

text \<open>
  The quotient of two collection sizes, where the divisor can be zero:
  \<^verbatim>\<open>0 / 0\<close> is \<^verbatim>\<open>NaN\<close> and \<^verbatim>\<open>n / 0\<close> is \<^verbatim>\<open>Infinity\<close> for \<open>n > 0\<close>. Neither raises.
\<close>

datatype ratio = Ratio real | RatioInfinity | RatioNaN

definition divSizes :: "nat \<Rightarrow> nat \<Rightarrow> ratio" where
  "divSizes a b =
     (if b = 0 then (if a = 0 then RatioNaN else RatioInfinity) else Ratio (real a / real b))"

subsection \<open>chunkDocument\<close>

definition isSentenceEnd :: "code_unit \<Rightarrow> bool" where
  "isSentenceEnd c = (c = 46 \<or> c = 33 \<or> c = 63)"

text \<open>One iteration of the loop over the sentences; the state is \<open>(chunks, currentChunk)\<close>.\<close>

fun chunkStep ::
  "nat \<Rightarrow> nat \<Rightarrow> jsstring list \<times> jsstring \<Rightarrow> jsstring \<Rightarrow> jsstring list \<times> jsstring" where
  "chunkStep maxLength overlap (chunks, currentChunk) sentence =
     (if length (currentChunk @ sentence) > maxLength \<and> length currentChunk > 0 then
        (let chunks' = chunks @ [trim currentChunk];
             currentChunk' = sentence @ js ''.''
         in if length chunks' > 0
            then (chunks', sliceFromEnd overlap (last chunks') @ currentChunk')
            else (chunks', currentChunk'))
      else (chunks, currentChunk @ sentence @ js ''.''))"

definition chunkDocument :: "nat \<Rightarrow> nat \<Rightarrow> jsstring \<Rightarrow> jsstring list" where
  "chunkDocument maxLength overlap content =
     (case foldl (chunkStep maxLength overlap) ([], []) (splitRuns isSentenceEnd content) of
        (chunks, currentChunk) \<Rightarrow>
          if trim currentChunk \<noteq> [] then chunks @ [trim currentChunk] else chunks)"

text \<open>The default arguments \<^verbatim>\<open>maxLength = 500, overlap = 50\<close>.\<close>

definition defaultMaxLength :: nat where
  "defaultMaxLength = 500"

definition defaultOverlap :: nat where
  "defaultOverlap = 50"

text \<open>
  The spec's reading of a short body's single passage: every segment followed by the
  synthetic terminator, and nothing else done to it.
\<close>

definition terminatorNormalized :: "jsstring \<Rightarrow> jsstring" where
  "terminatorNormalized body = concat (map (\<lambda>s. s @ js ''.'') (splitRuns isSentenceEnd body))"

text \<open>
  What links two consecutive passages: the later one begins with the slice
  \<^verbatim>\<open>slice(-overlap)\<close> of the earlier one, less the white space \<^verbatim>\<open>trim\<close> removed from
  its front.
\<close>

definition overlapLink :: "nat \<Rightarrow> jsstring \<Rightarrow> jsstring \<Rightarrow> bool" where
  "overlapLink overlap p q = prefix (dropWhile isWhiteSpace (sliceFromEnd overlap p)) q"

subsection \<open>tokenize\<close>

text \<open>
  \<^verbatim>\<open>toLowerCase\<close>, code unit by code unit, on Basic Latin, Latin-1, the capital
  letters the tokenizer's character class names (U+011E, U+015E, and U+0130, which
  lower-cases to \<^verbatim>\<open>i\<close> and U+0307) and the Kelvin sign U+212A, which lower-cases to
  \<^verbatim>\<open>k\<close>. These are the code units whose lower case lies in the tokenizer's character
  class. Every other code unit is left as it is: where \<^verbatim>\<open>toLowerCase\<close> changes one of
  them, both the code unit and its lower case are outside the class, and the tokenizer
  replaces either by a space.
\<close>

definition lowerUnit :: "code_unit \<Rightarrow> jsstring" where
  "lowerUnit c =
     (if 65 \<le> c \<and> c \<le> 90 then [c + 32]
      else if 192 \<le> c \<and> c \<le> 222 \<and> c \<noteq> 215 then [c + 32]
      else if c = 286 then [287]
      else if c = 350 then [351]
      else if c = 304 then [105, 775]
      else if c = 8490 then [107]
      else [c])"

definition toLowerCase :: "jsstring \<Rightarrow> jsstring" where
  "toLowerCase s = concat (map lowerUnit s)"

text \<open>\<^verbatim>\<open>\w\<close> without the unicode flag: ASCII letters, digits and the underscore.\<close>

definition isWordChar :: "code_unit \<Rightarrow> bool" where
  "isWordChar c = ((48 \<le> c \<and> c \<le> 57) \<or> (65 \<le> c \<and> c \<le> 90) \<or> c = 95 \<or> (97 \<le> c \<and> c \<le> 122))"

text \<open>The letters listed in the class after \<^verbatim>\<open>\w\s\<close>, in the order of the source.\<close>

definition turkishLetters :: "code_unit list" where
  "turkishLetters = [287, 252, 351, 305, 246, 231, 286, 220, 350, 304, 214, 199]"

definition stopWords :: "jsstring list" where
  "stopWords =
     [js ''ve'', js ''veya'', js ''ama'', [231, 252, 110, 107, 252], js ''ki'',
      [105, 231, 105, 110], js ''olarak'', js ''ile'', js ''da'', js ''de'',
      js ''the'', js ''is'', js ''are'', js ''and'', js ''or'', js ''but'', js ''because'',
      js ''in'', js ''on'', js ''at'', js ''to'', js ''for'', js ''of'', js ''with'', js ''by'']"

definition tokenize :: "jsstring \<Rightarrow> jsstring list" where
  "tokenize text =
     filter (\<lambda>token. length token > 2 \<and> token \<notin> set stopWords)
       (splitRuns isWhiteSpace
          (map (\<lambda>c. if isWordChar c \<or> isWhiteSpace c \<or> c \<in> set turkishLetters then c else 32)
             (toLowerCase text)))"

subsection \<open>calculateTFIDF and cosineSimilarity\<close>

text \<open>
  \<^verbatim>\<open>termFreq\<close> and the vectors are plain objects (\<^verbatim>\<open>{}\<close>), whose prototype is
  \<^verbatim>\<open>Object.prototype\<close>. Reading a key the object does not own yields the inherited
  property when the key is one of these names: a function, or for \<^verbatim>\<open>__proto__\<close> the
  prototype object itself. All of them are truthy, and none is a number.
\<close>

definition objectPrototypeKeys :: "jsstring list" where
  "objectPrototypeKeys =
     [js ''constructor'', js ''__defineGetter__'', js ''__defineSetter__'',
      js ''hasOwnProperty'', js ''__lookupGetter__'', js ''__lookupSetter__'',
      js ''isPrototypeOf'', js ''propertyIsEnumerable'', js ''toString'', js ''valueOf'',
      js ''__proto__'', js ''toLocaleString'']"

text \<open>
  The values \<^verbatim>\<open>termFreq\<close> holds during counting: a count, or the string that
  \<^verbatim>\<open>(termFreq[token] || 0) + 1\<close> produces when \<^verbatim>\<open>termFreq[token]\<close> is an inherited
  function (\<^verbatim>\<open>+\<close> then concatenates).
\<close>

datatype tfval = Count nat | Junk

text \<open>
  \<^verbatim>\<open>termFreq[token] = (termFreq[token] || 0) + 1\<close>. An assignment to \<^verbatim>\<open>__proto__\<close>
  runs the inherited setter, which ignores a value that is not an object: no property is
  created. Any other assignment creates or overwrites an own property.
\<close>

definition tfBump :: "(jsstring \<times> tfval) list \<Rightarrow> jsstring \<Rightarrow> (jsstring \<times> tfval) list" where
  "tfBump termFreq token =
     (case map_of termFreq token of
        Some (Count c) \<Rightarrow> AList.update token (Count (c + 1)) termFreq
      | Some Junk \<Rightarrow> AList.update token Junk termFreq
      | None \<Rightarrow>
          if token = js ''__proto__'' then termFreq
          else if token \<in> set objectPrototypeKeys then AList.update token Junk termFreq
          else AList.update token (Count 1) termFreq)"

text \<open>
  A vector lists the own properties of the object with their values. The keys of an object
  are distinct; in a list with a repeated key the first entry is the one every lookup below
  finds. \<^verbatim>\<open>Object.keys\<close> puts array-index keys first, which the list does not; the order
  of the terms has no influence on what is computed below in exact arithmetic.
\<close>

type_synonym vec = "(jsstring \<times> jsnum) list"

definition calculateTFIDF :: "jsstring list \<Rightarrow> vec" where
  "calculateTFIDF tokens =
     (let totalTokens = length tokens;
          termFreq = foldl tfBump [] tokens
      in map (\<lambda>(term, v). (term, case v of
                                     Count c \<Rightarrow> js_div (Num (real c)) (Num (real totalTokens))
                                   | Junk \<Rightarrow> NaN))
           termFreq)"

text \<open>
  \<^verbatim>\<open>vec[term] || 0\<close>, as the number that enters the products: an own weight that is
  \<^verbatim>\<open>NaN\<close> or \<open>0\<close> is falsy and gives \<open>0\<close>; a missing key gives \<open>0\<close> unless it is inherited,
  and then the inherited function or object multiplies as \<^verbatim>\<open>NaN\<close>.
\<close>

definition weightOrZero :: "vec \<Rightarrow> jsstring \<Rightarrow> jsnum" where
  "weightOrZero v term =
     (case map_of v term of
        Some (Num x) \<Rightarrow> Num x
      | Some NaN \<Rightarrow> Num 0
      | None \<Rightarrow> if term \<in> set objectPrototypeKeys then NaN else Num 0)"

text \<open>One iteration of the loop over the terms; the state is \<open>(dotProduct, norm1, norm2)\<close>.\<close>

fun cosineStep :: "vec \<Rightarrow> vec \<Rightarrow> jsnum \<times> jsnum \<times> jsnum \<Rightarrow> jsstring \<Rightarrow> jsnum \<times> jsnum \<times> jsnum" where
  "cosineStep vec1 vec2 (dotProduct, norm1, norm2) term =
     (let val1 = weightOrZero vec1 term; val2 = weightOrZero vec2 term
      in (js_add dotProduct (js_mul val1 val2),
          js_add norm1 (js_mul val1 val1),
          js_add norm2 (js_mul val2 val2)))"

definition cosineSimilarity :: "vec \<Rightarrow> vec \<Rightarrow> jsnum" where
  "cosineSimilarity vec1 vec2 =
     (case foldl (cosineStep vec1 vec2) (Num 0, Num 0, Num 0) (uniq (map fst vec1 @ map fst vec2)) of
        (dotProduct, norm1, norm2) \<Rightarrow>
          if norm1 = Num 0 \<or> norm2 = Num 0 then Num 0
          else js_div dotProduct (js_mul (js_sqrt norm1) (js_sqrt norm2)))"

text \<open>The weight a vector gives a term, zero for a term it does not list.\<close>

definition weight :: "vec \<Rightarrow> jsstring \<Rightarrow> real" where
  "weight v term = (case map_of v term of Some (Num x) \<Rightarrow> x | _ \<Rightarrow> 0)"

definition numericNonNegative :: "vec \<Rightarrow> bool" where
  "numericNonNegative v = list_all (\<lambda>(term, w). case w of Num x \<Rightarrow> 0 \<le> x | NaN \<Rightarrow> False) v"

text \<open>
  The spec's reading of the cosine: the dot product over the union of the terms of the two
  vectors, and the Euclidean norm of a vector.
\<close>

definition vectorTerms :: "vec \<Rightarrow> jsstring set" where
  "vectorTerms v = fst ` set v"

definition dotProductOver :: "vec \<Rightarrow> vec \<Rightarrow> real" where
  "dotProductOver v1 v2 =
     (\<Sum>term \<in> vectorTerms v1 \<union> vectorTerms v2. weight v1 term * weight v2 term)"

definition euclideanNorm :: "vec \<Rightarrow> real" where
  "euclideanNorm v = sqrt (\<Sum>term \<in> vectorTerms v. (weight v term)\<^sup>2)"

text \<open>Every inherited name is a term of both vectors or of neither.\<close>

definition sameInheritedTerms :: "vec \<Rightarrow> vec \<Rightarrow> bool" where
  "sameInheritedTerms v1 v2 =
     list_all (\<lambda>k. (k \<in> vectorTerms v1) = (k \<in> vectorTerms v2)) objectPrototypeKeys"

subsection \<open>The index\<close>

record document =
  doc_title :: jsstring
  doc_content :: jsstring
  doc_category :: jsstring
  doc_tags :: "jsstring list option"

record kbEntry =
  kb_title :: jsstring
  kb_content :: jsstring
  kb_category :: jsstring
  kb_tags :: "jsstring list option"
  kb_id :: jsstring
  kb_chunks :: nat
  createdAt :: jsstring

record chunk =
  chunk_id :: jsstring
  parentId :: jsstring
  title :: jsstring
  content :: jsstring
  category :: jsstring
  tags :: "jsstring list"
  index :: nat
  embedding :: "vec option"

record rag =
  initialized :: bool
  knowledgeBase :: "(jsstring \<times> kbEntry) list"
  documentChunks :: "(jsstring \<times> chunk) list"

text \<open>
  The state the constructor builds. \<^verbatim>\<open>init\<close>, which reads the corpus from files, is not
  embedded; its last statement sets \<^verbatim>\<open>initialized\<close>.
\<close>

definition newRAGSystem :: rag where
  "newRAGSystem = \<lparr>initialized = False, knowledgeBase = [], documentChunks = []\<rparr>"

text \<open>
  \<^verbatim>\<open>addDocument\<close>; the fresh \<^verbatim>\<open>uuid.v4()\<close> and the time stamp are arguments. A chunk has
  no \<^verbatim>\<open>embedding\<close> property until \<^verbatim>\<open>createEmbeddings\<close> runs.
\<close>

definition addDocument :: "rag \<Rightarrow> jsstring \<Rightarrow> jsstring \<Rightarrow> document \<Rightarrow> rag" where
  "addDocument st uid now doc =
     (let cs = chunkDocument defaultMaxLength defaultOverlap (doc_content doc);
          kb = AList.update uid
                 \<lparr>kb_title = doc_title doc, kb_content = doc_content doc,
                  kb_category = doc_category doc, kb_tags = doc_tags doc,
                  kb_id = uid, kb_chunks = length cs, createdAt = now\<rparr>
                 (knowledgeBase st);
          dc = foldl (\<lambda>m (c, i).
                  AList.update (uid @ js ''_'' @ decimal i)
                    \<lparr>chunk_id = uid @ js ''_'' @ decimal i, parentId = uid,
                     title = doc_title doc, content = c, category = doc_category doc,
                     tags = (case doc_tags doc of None \<Rightarrow> [] | Some ts \<Rightarrow> ts),
                     index = i, embedding = None\<rparr> m)
                 (documentChunks st) (zip cs [0 ..< length cs])
      in st\<lparr>knowledgeBase := kb, documentChunks := dc\<rparr>)"

definition createEmbeddings :: "rag \<Rightarrow> rag" where
  "createEmbeddings st =
     st\<lparr>documentChunks :=
          map (\<lambda>(chunkId, c). (chunkId, c\<lparr>embedding := Some (calculateTFIDF (tokenize (content c)))\<rparr>))
            (documentChunks st)\<rparr>"

definition getCategories :: "rag \<Rightarrow> jsstring list" where
  "getCategories st = uniq (map (\<lambda>(chunkId, c). category c) (documentChunks st))"

record stats =
  totalDocuments :: nat
  totalChunks :: nat
  categories :: "jsstring list"
  avgChunksPerDocument :: ratio

definition getDocumentStats :: "rag \<Rightarrow> stats" where
  "getDocumentStats st =
     \<lparr>totalDocuments = length (knowledgeBase st),
      totalChunks = length (documentChunks st),
      categories = getCategories st,
      avgChunksPerDocument = divSizes (length (documentChunks st)) (length (knowledgeBase st))\<rparr>"

subsection \<open>search\<close>

datatype error = NotInitialized | TypeError

text \<open>
  The options object; \<open>None\<close> is a property left out, for which the destructuring
  default applies (\<^verbatim>\<open>category = null, maxResults = 5, minScore = 0.1\<close>). A present
  \<^verbatim>\<open>maxResults\<close> is an integer and a present \<^verbatim>\<open>minScore\<close> a finite number.
\<close>

record options =
  opt_category :: "jsstring option"
  opt_maxResults :: "int option"
  opt_minScore :: "real option"

text \<open>
  An entry of \<^verbatim>\<open>scores\<close>. Its \<^verbatim>\<open>highlights\<close> property, computed from the passage text and
  the query tokens alone, takes no part in filtering, ordering or truncation and is left out.
\<close>

record searchResult =
  chunkId :: jsstring
  score :: jsnum
  chunk :: chunk

text \<open>\<^verbatim>\<open>category && chunk.category !== category\<close>; \<^verbatim>\<open>null\<close> and \<^verbatim>\<open>''\<close> are falsy.\<close>

definition skipsCategory :: "jsstring option \<Rightarrow> chunk \<Rightarrow> bool" where
  "skipsCategory cat c = (case cat of None \<Rightarrow> False | Some k \<Rightarrow> k \<noteq> [] \<and> category c \<noteq> k)"

text \<open>
  The loop over \<^verbatim>\<open>documentChunks\<close>, with \<^verbatim>\<open>scores\<close> as accumulator.
  \<^verbatim>\<open>Object.keys(undefined)\<close> throws a TypeError for a chunk without embedding.
\<close>

fun scan ::
  "vec \<Rightarrow> jsstring option \<Rightarrow> real \<Rightarrow> searchResult list \<Rightarrow> (jsstring \<times> chunk) list
   \<Rightarrow> error + searchResult list" where
  "scan queryEmbedding cat minScore scores [] = Inr scores"
| "scan queryEmbedding cat minScore scores ((cid, c) # rest) =
     (if skipsCategory cat c then scan queryEmbedding cat minScore scores rest
      else case embedding c of
             None \<Rightarrow> Inl TypeError
           | Some e \<Rightarrow>
               (let s = cosineSimilarity queryEmbedding e
                in if js_ge s (Num minScore)
                   then scan queryEmbedding cat minScore
                          (scores @ [\<lparr>chunkId = cid, score = s, chunk = c\<rparr>]) rest
                   else scan queryEmbedding cat minScore scores rest))"

text \<open>
  \<^verbatim>\<open>scores.sort((a, b) => b.score - a.score)\<close>. \<^verbatim>\<open>Array.prototype.sort\<close> is stable
  (ECMAScript 2019), and for a consistent comparator every stable sort returns the same
  array; it is embedded as insertion from the right, where an element moves behind
  exactly those it compares greater than.
\<close>

definition byScoreDescending :: "searchResult \<Rightarrow> searchResult \<Rightarrow> jsnum" where
  "byScoreDescending a b = js_sub (score b) (score a)"

fun insertBy :: "('a \<Rightarrow> 'a \<Rightarrow> jsnum) \<Rightarrow> 'a \<Rightarrow> 'a list \<Rightarrow> 'a list" where
  "insertBy cmp x [] = [x]"
| "insertBy cmp x (y # ys) = (if js_positive (cmp x y) then y # insertBy cmp x ys else x # y # ys)"

definition jsSort :: "('a \<Rightarrow> 'a \<Rightarrow> jsnum) \<Rightarrow> 'a list \<Rightarrow> 'a list" where
  "jsSort cmp xs = foldr (insertBy cmp) xs []"

text \<open>The destructuring defaults \<^verbatim>\<open>maxResults = 5\<close> and \<^verbatim>\<open>minScore = 0.1\<close>.\<close>

definition maxResultsOf :: "options \<Rightarrow> int" where
  "maxResultsOf opts = (case opt_maxResults opts of None \<Rightarrow> 5 | Some n \<Rightarrow> n)"

definition minScoreOf :: "options \<Rightarrow> real" where
  "minScoreOf opts = (case opt_minScore opts of None \<Rightarrow> 1 / 10 | Some m \<Rightarrow> m)"

definition search :: "rag \<Rightarrow> jsstring \<Rightarrow> options \<Rightarrow> error + searchResult list" where
  "search st query opts =
     (if \<not> initialized st then Inl NotInitialized
      else
        (let cat = opt_category opts;
             maxResults = maxResultsOf opts;
             minScore = minScoreOf opts;
             queryTokens = tokenize query;
             queryEmbedding = calculateTFIDF queryTokens
         in case scan queryEmbedding cat minScore [] (documentChunks st) of
              Inl e \<Rightarrow> Inl e
            | Inr scores \<Rightarrow> Inr (sliceTo maxResults (jsSort byScoreDescending scores))))"

text \<open>The passages the scan meets, in the order it meets them, with their scores.\<close>

definition scored :: "vec \<Rightarrow> jsstring \<times> chunk \<Rightarrow> searchResult" where
  "scored queryEmbedding =
     (\<lambda>(cid, c). \<lparr>chunkId = cid,
                     score = cosineSimilarity queryEmbedding (the (embedding c)),
                     chunk = c\<rparr>)"

definition encountered :: "rag \<Rightarrow> jsstring \<Rightarrow> jsstring option \<Rightarrow> searchResult list" where
  "encountered st query cat =
     map (scored (calculateTFIDF (tokenize query)))
       (filter (\<lambda>(cid, c). \<not> skipsCategory cat c) (documentChunks st))"

text \<open>The real number a score stands for; scores that pass \<^verbatim>\<open>score >= minScore\<close> are numbers.\<close>

fun scoreValue :: "searchResult \<Rightarrow> real" where
  "scoreValue r = (case score r of Num x \<Rightarrow> x | NaN \<Rightarrow> 0)"

subsection \<open>answerQuestion\<close>

record answer =
  question :: jsstring
  answerContext :: jsstring
  searchResults :: "searchResult list"
  hasRelevantInfo :: bool

definition answerOptions :: options where
  "answerOptions = \<lparr>opt_category = None, opt_maxResults = Some 3, opt_minScore = None\<rparr>"

text \<open>\<^verbatim>\<open>answerQuestion\<close>, without the time stamp of the returned object; its property
  \<^verbatim>\<open>context\<close> is the field \<open>answerContext\<close>.\<close>

definition answerQuestion :: "rag \<Rightarrow> jsstring \<Rightarrow> jsstring list \<Rightarrow> error + answer" where
  "answerQuestion st q ctx =
     (case search st q answerOptions of
        Inl e \<Rightarrow> Inl e
      | Inr results \<Rightarrow>
          (let contextText = (if length results > 0
                              then join [10, 10] (map (\<lambda>result. content (chunk result)) results)
                              else []);
               contextText' = (if length ctx > 0
                               then contextText @ [10, 10] @ join [10] ctx
                               else contextText)
           in Inr \<lparr>question = q, answerContext = contextText', searchResults = results,
                   hasRelevantInfo = length results > 0\<rparr>))"

subsection \<open>The route GET /search\<close>

text \<open>
  The \<^verbatim>\<open>query\<close> parameter as the handler finds it in \<^verbatim>\<open>req.query\<close>: missing, a
  string, or something that is not a string (an array or an object).
\<close>

datatype queryParam = Missing | Text jsstring | NotAString

text \<open>
  The handler's outcomes. The options are those it passes on, already parsed by
  \<^verbatim>\<open>parseInt\<close> and \<^verbatim>\<open>parseFloat\<close>; the formatting of the results is left out.
\<close>

datatype response = BadRequest | Success "searchResult list" | ServerError error

definition searchRoute :: "rag \<Rightarrow> queryParam \<Rightarrow> options \<Rightarrow> response" where
  "searchRoute st query opts =
     (case query of
        Missing \<Rightarrow> BadRequest
      | NotAString \<Rightarrow> BadRequest
      | Text q \<Rightarrow>
          if q = [] \<or> length (trim q) = 0 then BadRequest
          else (case search st (trim q) opts of
                  Inl e \<Rightarrow> ServerError e
                | Inr results \<Rightarrow> Success results))"

subsection \<open>An index for the examples\<close>

text \<open>
  Four documents ingested by \<^verbatim>\<open>addDocument\<close>, embedded by \<^verbatim>\<open>createEmbeddings\<close>, and the
  flag set as \<^verbatim>\<open>init\<close> sets it at its end.
\<close>

definition exampleDocument :: "string \<Rightarrow> string \<Rightarrow> document" where
  "exampleDocument cat body =
     \<lparr>doc_title = js ''Notes'', doc_content = js body, doc_category = js cat, doc_tags = None\<rparr>"

definition exampleIndex :: rag where
  "exampleIndex =
     (createEmbeddings
        (addDocument
           (addDocument
              (addDocument
                 (addDocument newRAGSystem (js ''d1'') (js ''t'')
                    (exampleDocument ''math'' ''limit limit limit turev turev turev turev''))
                 (js ''d2'') (js ''t'') (exampleDocument ''math'' ''limit''))
              (js ''d3'') (js ''t'') (exampleDocument ''physics'' ''kuvvet''))
           (js ''d4'') (js ''t'') (exampleDocument ''math'' ''Limit!'')))
     \<lparr>initialized := True\<rparr>"

text \<open>The passage \<^verbatim>\<open>addDocument\<close> makes of a one-passage example document, embedded.\<close>

definition exampleChunk :: "string \<Rightarrow> string \<Rightarrow> string \<Rightarrow> vec \<Rightarrow> chunk" where
  "exampleChunk uid cat body v =
     \<lparr>chunk_id = js uid @ js ''_0'', parentId = js uid, title = js ''Notes'', content = js body,
      category = js cat, tags = [], index = 0, embedding = Some v\<rparr>"

text \<open>\<^verbatim>\<open>search(query)\<close> with no options, and with a negative \<^verbatim>\<open>maxResults\<close>.\<close>

definition noOptions :: options where
  "noOptions = \<lparr>opt_category = None, opt_maxResults = None, opt_minScore = None\<rparr>"

definition negativeLimit :: options where
  "negativeLimit = \<lparr>opt_category = None, opt_maxResults = Some (- 1), opt_minScore = None\<rparr>"

section \<open>Properties of chunkDocument\<close>

subsection \<open>Splitting and trimming\<close>

lemma splitRuns_Cons:
  assumes "dropWhile (\<lambda>c. \<not> sep c) s \<noteq> []"
  shows "splitRuns sep s = takeWhile (\<lambda>c. \<not> sep c) s
           # splitRuns sep (dropWhile sep (dropWhile (\<lambda>c. \<not> sep c) s))"
  by (subst splitRuns.simps) (simp only: Let_def assms if_False)

lemma splitRuns_single:
  assumes "dropWhile (\<lambda>c. \<not> sep c) s = []"
  shows "splitRuns sep s = [takeWhile (\<lambda>c. \<not> sep c) s]"
  by (subst splitRuns.simps) (simp only: Let_def assms if_True simp_thms)

lemma sep_hd_dropWhile: "dropWhile (\<lambda>c. \<not> sep c) s = c # cs \<Longrightarrow> sep c"
  using hd_dropWhile [of "\<lambda>c. \<not> sep c" s] by auto


lemma isWhiteSpace_not_sentenceEnd: "isWhiteSpace c \<Longrightarrow> \<not> isSentenceEnd c"
  by (auto simp: isWhiteSpace_def isSentenceEnd_def)

lemma period_not_white: "\<not> isWhiteSpace 46"
  by (simp add: isWhiteSpace_def)

lemma js_period: "js ''.'' = [46]"
  by (simp add: js_def)

lemma splitRuns_no_sep: "\<forall>c \<in> set s. \<not> sep c \<Longrightarrow> splitRuns sep s = [s]"
  using splitRuns_single [of sep s] by simp

lemma splitRuns_not_Nil: "splitRuns sep s \<noteq> []"
  using splitRuns_single [of sep s] splitRuns_Cons [of sep s]
  by (cases "dropWhile (\<lambda>c. \<not> sep c) s = []") simp_all

lemma trim_ends_nonwhite:
  assumes "\<not> isWhiteSpace c"
  shows "trim (s @ [c]) = dropWhile isWhiteSpace s @ [c]"
proof -
  have "dropWhile isWhiteSpace (s @ [c]) = dropWhile isWhiteSpace s @ [c]"
    using assms by (induction s) auto
  then show ?thesis using assms by (simp add: trim_def)
qed

lemma trim_white_period:
  "\<forall>c \<in> set s. isWhiteSpace c \<Longrightarrow> trim (s @ [46]) = [46]"
  using trim_ends_nonwhite [OF period_not_white, of s] by simp

lemma chunkDocument_blank:
  assumes "\<forall>c \<in> set body. isWhiteSpace c"
  shows "chunkDocument maxLength overlap body = [js ''.'']"
proof -
  have "splitRuns isSentenceEnd body = [body]"
    using assms by (intro splitRuns_no_sep) (auto dest: isWhiteSpace_not_sentenceEnd)
  then show ?thesis
    using assms by (simp add: chunkDocument_def js_period trim_white_period)
qed

subsection \<open>A body that fits into one passage\<close>

lemma splitRuns_size:
  "sum_list (map length (splitRuns sep s)) + length (splitRuns sep s) \<le> length s + 1"
proof (induction sep s rule: splitRuns.induct)
  case (1 sep s)
  define seg where "seg = takeWhile (\<lambda>c. \<not> sep c) s"
  define rest where "rest = dropWhile (\<lambda>c. \<not> sep c) s"
  have len: "length seg + length rest = length s"
    unfolding seg_def rest_def
    by (metis length_append takeWhile_dropWhile_id)
  show ?case
  proof (cases "rest = []")
    case True
    then have "splitRuns sep s = [seg]"
      unfolding seg_def rest_def by (rule splitRuns_single)
    then show ?thesis using len by simp
  next
    case False
    then obtain c cs where rc: "rest = c # cs" by (cases rest) auto
    have "sep c" using rc unfolding rest_def by (rule sep_hd_dropWhile)
    then have drop: "length (dropWhile sep rest) \<le> length cs"
      using rc by (simp add: length_dropWhile_le)
    have eq: "splitRuns sep s = seg # splitRuns sep (dropWhile sep rest)"
      using False unfolding seg_def rest_def by (rule splitRuns_Cons)
    have IH: "sum_list (map length (splitRuns sep (dropWhile sep rest)))
              + length (splitRuns sep (dropWhile sep rest)) \<le> length (dropWhile sep rest) + 1"
      using "1.IH" [OF seg_def rest_def False] .
    show ?thesis using IH drop len rc unfolding eq by simp
  qed
qed

lemma foldl_chunkStep_short:
  "length cur + sum_list (map length segs) + length segs \<le> maxLength + 1 \<Longrightarrow>
   foldl (chunkStep maxLength overlap) ([], cur) segs
     = ([], cur @ concat (map (\<lambda>s. s @ js ''.'') segs))"
proof (induction segs arbitrary: cur)
  case Nil
  then show ?case by simp
next
  case (Cons s segs)
  have step: "chunkStep maxLength overlap ([], cur) s = ([], cur @ s @ js ''.'')"
    using Cons.prems by simp
  have "length (cur @ s @ js ''.'') + sum_list (map length segs) + length segs \<le> maxLength + 1"
    using Cons.prems by (simp add: js_period)
  from Cons.IH [OF this] show ?case using step by simp
qed

lemma concat_terminated:
  "segs \<noteq> [] \<Longrightarrow> \<exists>pre. concat (map (\<lambda>s. s @ js ''.'') segs) = pre @ [46]"
proof (cases segs rule: rev_cases)
  case Nil
  then show "segs \<noteq> [] \<Longrightarrow> ?thesis" by simp
next
  case (snoc ys y)
  then have "concat (map (\<lambda>s. s @ js ''.'') segs) = (concat (map (\<lambda>s. s @ js ''.'') ys) @ y) @ [46]"
    by (simp add: js_period)
  then show ?thesis by blast
qed

lemma terminatorNormalized_terminated: "\<exists>pre. terminatorNormalized body = pre @ [46]"
  unfolding terminatorNormalized_def by (rule concat_terminated) (rule splitRuns_not_Nil)

lemma chunkDocument_short:
  assumes "length body \<le> maxLength"
  shows "chunkDocument maxLength overlap body = [trim (terminatorNormalized body)]"
proof -
  have "0 + sum_list (map length (splitRuns isSentenceEnd body))
          + length (splitRuns isSentenceEnd body) \<le> maxLength + 1"
    using splitRuns_size [of isSentenceEnd body] assms by simp
  then have fold: "foldl (chunkStep maxLength overlap) ([], []) (splitRuns isSentenceEnd body)
      = ([], terminatorNormalized body)"
    using foldl_chunkStep_short [of "[]" "splitRuns isSentenceEnd body" maxLength overlap]
    by (simp add: terminatorNormalized_def)
  obtain pre where pre: "terminatorNormalized body = pre @ [46]"
    using terminatorNormalized_terminated by blast
  have "trim (terminatorNormalized body) \<noteq> []"
    using trim_ends_nonwhite [OF period_not_white, of pre] pre by simp
  then show ?thesis by (simp add: chunkDocument_def fold)
qed

lemma trim_terminatorNormalized:
  "trim (terminatorNormalized body) = dropWhile isWhiteSpace (terminatorNormalized body)"
proof -
  obtain pre where pre: "terminatorNormalized body = pre @ [46]"
    using terminatorNormalized_terminated by blast
  have "dropWhile isWhiteSpace (pre @ [46]) = dropWhile isWhiteSpace pre @ [46]"
    using period_not_white by (induction pre) auto
  then show ?thesis
    using trim_ends_nonwhite [OF period_not_white, of pre] pre by simp
qed

lemma terminatorNormalized_hd:
  assumes "body \<noteq> []"
  shows "terminatorNormalized body \<noteq> [] \<and>
         (hd (terminatorNormalized body) = hd body \<or> (isSentenceEnd (hd body) \<and> hd (terminatorNormalized body) = 46))"
proof -
  obtain c cs where b: "body = c # cs" using assms by (cases body) auto
  show ?thesis
  proof (cases "isSentenceEnd c")
    case True
    then have "splitRuns isSentenceEnd body = [] # splitRuns isSentenceEnd (dropWhile isSentenceEnd body)"
      using b splitRuns_Cons [of isSentenceEnd body] by simp
    then show ?thesis using True b by (simp add: terminatorNormalized_def js_period)
  next
    case False
    then have "\<exists>seg ss. splitRuns isSentenceEnd body = (c # seg) # ss"
      using b splitRuns_Cons [of isSentenceEnd body] splitRuns_single [of isSentenceEnd body]
      by (cases "dropWhile (\<lambda>c. \<not> isSentenceEnd c) body = []") simp_all
    then show ?thesis using b by (auto simp: terminatorNormalized_def)
  qed
qed

subsection \<open>The overlap between consecutive passages\<close>

lemma prefix_dropWhile_append: "prefix (dropWhile P a) (dropWhile P (a @ b))"
  by (induction a) auto

lemma dropWhile_white_snoc_period:
  "dropWhile isWhiteSpace (s @ [46]) = dropWhile isWhiteSpace s @ [46]"
  using period_not_white by (induction s) auto

lemma trim_terminated:
  assumes "cur \<noteq> []" "last cur = 46"
  shows "trim cur = dropWhile isWhiteSpace cur" "trim cur \<noteq> []" "last (trim cur) = 46"
proof -
  from assms have c: "cur = butlast cur @ [46]"
    by (metis append_butlast_last_id)
  have t: "trim cur = dropWhile isWhiteSpace (butlast cur) @ [46]"
    using trim_ends_nonwhite [OF period_not_white, of "butlast cur"] c by simp
  show "trim cur = dropWhile isWhiteSpace cur"
    using t dropWhile_white_snoc_period [of "butlast cur"] c by simp
  show "trim cur \<noteq> []" using t by simp
  show "last (trim cur) = 46" using t by simp
qed

lemma overlapLink_trim:
  assumes "cur \<noteq> []" "last cur = 46" "prefix (sliceFromEnd overlap p) cur"
  shows "overlapLink overlap p (trim cur)"
proof -
  from assms(3) obtain b where "cur = sliceFromEnd overlap p @ b"
    by (auto simp: prefix_def)
  then have "prefix (dropWhile isWhiteSpace (sliceFromEnd overlap p)) (dropWhile isWhiteSpace cur)"
    using prefix_dropWhile_append [of isWhiteSpace "sliceFromEnd overlap p" b] by simp
  then show ?thesis
    using trim_terminated(1) [OF assms(1,2)] by (simp add: overlapLink_def)
qed

lemma chunkStep_invariant:
  assumes ended: "cur = [] \<or> last cur = 46"
    and seeded: "chunks \<noteq> [] \<Longrightarrow> cur \<noteq> [] \<and> prefix (sliceFromEnd overlap (last chunks)) cur"
    and linked: "successively (overlapLink overlap) chunks"
    and stepped: "chunkStep maxLength overlap (chunks, cur) s = (chunks', cur')"
  shows "cur' \<noteq> [] \<and> last cur' = 46
       \<and> (chunks' \<noteq> [] \<longrightarrow> prefix (sliceFromEnd overlap (last chunks')) cur')
       \<and> successively (overlapLink overlap) chunks'"
proof (cases "length (cur @ s) > maxLength \<and> length cur > 0")
  case True
  then have ne: "cur \<noteq> []" by auto
  with ended have l: "last cur = 46" by simp
  from True stepped have c': "chunks' = chunks @ [trim cur]"
    and u': "cur' = sliceFromEnd overlap (trim cur) @ s @ [46]"
    by (auto simp: Let_def js_period)
  have "successively (overlapLink overlap) (chunks @ [trim cur])"
  proof (cases "chunks = []")
    case True
    then show ?thesis by simp
  next
    case False
    with seeded have "prefix (sliceFromEnd overlap (last chunks)) cur" by simp
    then have "overlapLink overlap (last chunks) (trim cur)"
      using overlapLink_trim [OF ne l] by simp
    then show ?thesis using linked by (simp add: successively_append_iff)
  qed
  then show ?thesis using c' u' by simp
next
  case False
  with stepped have c': "chunks' = chunks" and u': "cur' = cur @ s @ [46]"
    by (auto simp: js_period)
  have "chunks \<noteq> [] \<longrightarrow> prefix (sliceFromEnd overlap (last chunks)) (cur @ s @ [46])"
    using seeded by (auto simp: prefix_def)
  then show ?thesis using c' u' linked by simp
qed

lemma foldl_chunkStep_invariant:
  assumes "cur = [] \<or> last cur = 46"
    and "chunks \<noteq> [] \<Longrightarrow> cur \<noteq> [] \<and> prefix (sliceFromEnd overlap (last chunks)) cur"
    and "successively (overlapLink overlap) chunks"
    and "foldl (chunkStep maxLength overlap) (chunks, cur) segs = (chunks', cur')"
  shows "(cur' = [] \<or> last cur' = 46)
       \<and> (chunks' \<noteq> [] \<longrightarrow> cur' \<noteq> [] \<and> prefix (sliceFromEnd overlap (last chunks')) cur')
       \<and> successively (overlapLink overlap) chunks'"
  using assms
proof (induction segs arbitrary: chunks cur)
  case Nil
  then show ?case by auto
next
  case (Cons s segs)
  obtain chunks1 cur1 where st: "chunkStep maxLength overlap (chunks, cur) s = (chunks1, cur1)"
    by (cases "chunkStep maxLength overlap (chunks, cur) s") auto
  have inv: "cur1 \<noteq> [] \<and> last cur1 = 46
       \<and> (chunks1 \<noteq> [] \<longrightarrow> prefix (sliceFromEnd overlap (last chunks1)) cur1)
       \<and> successively (overlapLink overlap) chunks1"
    using chunkStep_invariant [OF Cons.prems(1) Cons.prems(2) Cons.prems(3) st] by simp
  have "foldl (chunkStep maxLength overlap) (chunks1, cur1) segs = (chunks', cur')"
    using Cons.prems(4) st by simp
  from Cons.IH [OF _ _ _ this] inv show ?case by blast
qed

lemma chunkDocument_linked:
  "successively (overlapLink overlap) (chunkDocument maxLength overlap body)"
proof -
  obtain chunks cur where f:
    "foldl (chunkStep maxLength overlap) ([], []) (splitRuns isSentenceEnd body) = (chunks, cur)"
    by (cases "foldl (chunkStep maxLength overlap) ([], []) (splitRuns isSentenceEnd body)") auto
  have inv: "(cur = [] \<or> last cur = 46)
       \<and> (chunks \<noteq> [] \<longrightarrow> cur \<noteq> [] \<and> prefix (sliceFromEnd overlap (last chunks)) cur)
       \<and> successively (overlapLink overlap) chunks"
    by (rule foldl_chunkStep_invariant [OF _ _ _ f]) simp_all
  show ?thesis
  proof (cases "trim cur \<noteq> []")
    case False
    then show ?thesis using inv f by (simp add: chunkDocument_def)
  next
    case True
    then have ne: "cur \<noteq> []" by (auto simp: trim_def)
    with inv have l: "last cur = 46" by simp
    have "successively (overlapLink overlap) (chunks @ [trim cur])"
    proof (cases "chunks = []")
      case True
      then show ?thesis by simp
    next
      case False
      with inv have "prefix (sliceFromEnd overlap (last chunks)) cur" by simp
      then have "overlapLink overlap (last chunks) (trim cur)"
        using overlapLink_trim [OF ne l] by simp
      then show ?thesis using inv by (simp add: successively_append_iff)
    qed
    then show ?thesis using True f by (simp add: chunkDocument_def)
  qed
qed

lemma chunkDocument_adjacent:
  assumes "Suc k < length (chunkDocument maxLength overlap body)"
  shows "overlapLink overlap (chunkDocument maxLength overlap body ! k)
           (chunkDocument maxLength overlap body ! Suc k)"
  using chunkDocument_linked [of overlap maxLength body] assms
  by (simp add: successively_conv_nth)

lemma overlapLink_exact:
  assumes "overlapLink overlap p q" "0 < overlap" "overlap \<le> length p"
    and "\<not> isWhiteSpace (p ! (length p - overlap))"
  shows "take overlap q = sliceFromEnd overlap p" "suffix (take overlap q) p"
proof -
  have sl: "sliceFromEnd overlap p = drop (length p - overlap) p"
    using assms(2) by (simp add: sliceFromEnd_def)
  have len: "length (sliceFromEnd overlap p) = overlap" using assms(2,3) sl by simp
  have "sliceFromEnd overlap p \<noteq> []" using len assms(2) by auto
  moreover have "hd (sliceFromEnd overlap p) = p ! (length p - overlap)"
    using sl assms(2,3) by (simp add: hd_drop_conv_nth)
  ultimately have "dropWhile isWhiteSpace (sliceFromEnd overlap p) = sliceFromEnd overlap p"
    using assms(4) by (cases "sliceFromEnd overlap p") auto
  with assms(1) have "prefix (sliceFromEnd overlap p) q" by (simp add: overlapLink_def)
  then obtain b where "q = sliceFromEnd overlap p @ b" by (auto simp: prefix_def)
  then show "take overlap q = sliceFromEnd overlap p" using len by simp
  then show "suffix (take overlap q) p" using sl by (simp add: suffix_drop)
qed

subsection \<open>Claims about chunkDocument\<close>

text \<open>
  C7 (amended). A body shorter than \<^verbatim>\<open>maxLength\<close> is chunked into exactly one passage:
  the terminator-normalized body (each segment followed by \<^verbatim>\<open>'.'\<close>) after \<^verbatim>\<open>trim\<close>, which
  removes its leading white space and nothing else. The passage is the terminator-normalized
  body itself when the body does not begin with white space.
\<close>

theorem chunkDocument_short_body:
  assumes "length body < maxLength"
  shows "chunkDocument maxLength overlap body = [trim (terminatorNormalized body)]
       \<and> trim (terminatorNormalized body) = dropWhile isWhiteSpace (terminatorNormalized body)
       \<and> (body = [] \<or> \<not> isWhiteSpace (hd body) \<longrightarrow>
            chunkDocument maxLength overlap body = [terminatorNormalized body])"
proof -
  have one: "chunkDocument maxLength overlap body = [trim (terminatorNormalized body)]"
    using assms chunkDocument_short [of body maxLength overlap] by simp
  have left: "trim (terminatorNormalized body) = dropWhile isWhiteSpace (terminatorNormalized body)"
    by (rule trim_terminatorNormalized)
  have "dropWhile isWhiteSpace (terminatorNormalized body) = terminatorNormalized body"
    if "body = [] \<or> \<not> isWhiteSpace (hd body)"
  proof (cases "body = []")
    case True
    then show ?thesis
      using splitRuns_no_sep [of "[]" isSentenceEnd] period_not_white
      by (simp add: terminatorNormalized_def js_period)
  next
    case False
    with that have nw: "\<not> isWhiteSpace (hd body)" by simp
    from terminatorNormalized_hd [OF False]
    have "terminatorNormalized body \<noteq> []" and "\<not> isWhiteSpace (hd (terminatorNormalized body))"
      using nw period_not_white by auto
    then show ?thesis by (cases "terminatorNormalized body") auto
  qed
  then show ?thesis using one left by simp
qed

theorem chunkDocument_short_body_witness:
  "length (js ''Limit. Turev? Integral'') < defaultMaxLength
   \<and> chunkDocument defaultMaxLength defaultOverlap (js ''Limit. Turev? Integral'')
       = [js ''Limit. Turev. Integral.'']"
proof -
  have h: "length (js ''Limit. Turev? Integral'') < defaultMaxLength"
    by (simp add: js_def defaultMaxLength_def)
  have n: "terminatorNormalized (js ''Limit. Turev? Integral'') = js ''Limit. Turev. Integral.''"
    by code_simp
  have nw: "js ''Limit. Turev? Integral'' = [] \<or> \<not> isWhiteSpace (hd (js ''Limit. Turev? Integral''))"
    by code_simp
  from chunkDocument_short_body [OF h, of defaultOverlap] nw
  have "chunkDocument defaultMaxLength defaultOverlap (js ''Limit. Turev? Integral'')
          = [terminatorNormalized (js ''Limit. Turev? Integral'')]"
    by blast
  then show ?thesis using h n by simp
qed

theorem chunkDocument_short_body_counterexample:
  "length (js '' a'') < defaultMaxLength
   \<and> chunkDocument defaultMaxLength defaultOverlap (js '' a'') = [js ''a.'']
   \<and> terminatorNormalized (js '' a'') = js '' a.''
   \<and> chunkDocument defaultMaxLength defaultOverlap (js '' a'') \<noteq> [terminatorNormalized (js '' a'')]"
  by code_simp

text \<open>
  C6 (amended). Of two consecutive passages, the later one begins with the slice
  \<^verbatim>\<open>slice(-overlap)\<close> of the earlier one less the leading white space of that slice:
  every passage is pushed through \<^verbatim>\<open>trim\<close>. Hence, when the earlier passage has at least
  \<open>overlap\<close> characters and the slice begins with a character that is not white space, the
  first \<open>overlap\<close> characters of the later passage are the last \<open>overlap\<close> characters of the
  earlier one.
\<close>

theorem chunkDocument_overlap:
  assumes "Suc k < length (chunkDocument maxLength overlap body)"
  shows "prefix (dropWhile isWhiteSpace
                   (sliceFromEnd overlap (chunkDocument maxLength overlap body ! k)))
           (chunkDocument maxLength overlap body ! Suc k)
       \<and> (0 < overlap \<and> overlap \<le> length (chunkDocument maxLength overlap body ! k)
            \<and> \<not> isWhiteSpace (chunkDocument maxLength overlap body ! k
                  ! (length (chunkDocument maxLength overlap body ! k) - overlap))
          \<longrightarrow> take overlap (chunkDocument maxLength overlap body ! Suc k)
                = sliceFromEnd overlap (chunkDocument maxLength overlap body ! k)
              \<and> suffix (take overlap (chunkDocument maxLength overlap body ! Suc k))
                  (chunkDocument maxLength overlap body ! k))"
proof -
  have l: "overlapLink overlap (chunkDocument maxLength overlap body ! k)
             (chunkDocument maxLength overlap body ! Suc k)"
    using assms by (rule chunkDocument_adjacent)
  show ?thesis
    using l overlapLink_exact [OF l] by (auto simp: overlapLink_def)
qed

theorem chunkDocument_overlap_witness:
  "Suc 0 < length (chunkDocument defaultMaxLength defaultOverlap
                     (replicate 60 120 @ js ''. '' @ replicate 500 122))
   \<and> take defaultOverlap (chunkDocument defaultMaxLength defaultOverlap
                     (replicate 60 120 @ js ''. '' @ replicate 500 122) ! Suc 0)
       = replicate 49 120 @ js ''.''
   \<and> suffix (take defaultOverlap (chunkDocument defaultMaxLength defaultOverlap
                     (replicate 60 120 @ js ''. '' @ replicate 500 122) ! Suc 0))
        (chunkDocument defaultMaxLength defaultOverlap
                     (replicate 60 120 @ js ''. '' @ replicate 500 122) ! 0)"
proof -
  let ?cs = "chunkDocument defaultMaxLength defaultOverlap
               (replicate 60 120 @ js ''. '' @ replicate 500 122)"
  have cs: "?cs = [replicate 60 120 @ js ''.'',
                   replicate 49 120 @ js ''. '' @ replicate 500 122 @ js ''.'']"
    by code_simp
  have h: "Suc 0 < length ?cs"
    unfolding cs by simp
  have pre: "0 < defaultOverlap \<and> defaultOverlap \<le> length (?cs ! 0)
        \<and> \<not> isWhiteSpace (?cs ! 0 ! (length (?cs ! 0) - defaultOverlap))"
    unfolding cs by code_simp
  have sl: "sliceFromEnd defaultOverlap (?cs ! 0) = replicate 49 120 @ js ''.''"
    unfolding cs by code_simp
  from chunkDocument_overlap [OF h] pre
  have a: "take defaultOverlap (?cs ! Suc 0) = sliceFromEnd defaultOverlap (?cs ! 0)"
    and b: "suffix (take defaultOverlap (?cs ! Suc 0)) (?cs ! 0)"
    by blast+
  from a sl have "take defaultOverlap (?cs ! Suc 0) = replicate 49 120 @ js ''.''"
    by (rule trans)
  then show ?thesis using h b by blast
qed

theorem chunkDocument_overlap_counterexample:
  "length (chunkDocument defaultMaxLength defaultOverlap
             (js ''x '' @ replicate 48 121 @ js ''.'' @ replicate 500 122)) = 2
   \<and> \<not> suffix (take defaultOverlap (chunkDocument defaultMaxLength defaultOverlap
                     (js ''x '' @ replicate 48 121 @ js ''.'' @ replicate 500 122) ! 1))
        (chunkDocument defaultMaxLength defaultOverlap
                     (js ''x '' @ replicate 48 121 @ js ''.'' @ replicate 500 122) ! 0)
   \<and> \<not> prefix (sliceFromEnd defaultOverlap (chunkDocument defaultMaxLength defaultOverlap
                     (js ''x '' @ replicate 48 121 @ js ''.'' @ replicate 500 122) ! 0))
        (chunkDocument defaultMaxLength defaultOverlap
                     (js ''x '' @ replicate 48 121 @ js ''.'' @ replicate 500 122) ! 1)"
proof -
  have cs: "chunkDocument defaultMaxLength defaultOverlap
              (js ''x '' @ replicate 48 121 @ js ''.'' @ replicate 500 122)
          = [js ''x '' @ replicate 48 121 @ js ''.'',
             replicate 48 121 @ js ''.'' @ replicate 500 122 @ js ''.'']"
    by code_simp
  show ?thesis
    unfolding cs by code_simp
qed


section \<open>Properties of the index\<close>

lemma update_fresh: "k \<notin> fst ` set al \<Longrightarrow> AList.update k v al = al @ [(k, v)]"
  by (induction al) auto

lemma decimal_0: "decimal 0 = js ''0''"
  by (simp add: decimal.simps js_def)

lemma addDocument_single:
  assumes "chunkDocument defaultMaxLength defaultOverlap (doc_content doc) = [c]"
  shows "documentChunks (addDocument st uid now doc)
       = AList.update (uid @ js ''_0'')
           \<lparr>chunk_id = uid @ js ''_0'', parentId = uid, title = doc_title doc, content = c,
            category = doc_category doc,
            tags = (case doc_tags doc of None \<Rightarrow> [] | Some ts \<Rightarrow> ts),
            index = 0, embedding = None\<rparr>
           (documentChunks st)"
    and "map_of (knowledgeBase (addDocument st uid now doc)) uid
       = Some \<lparr>kb_title = doc_title doc, kb_content = doc_content doc,
                kb_category = doc_category doc, kb_tags = doc_tags doc,
                kb_id = uid, kb_chunks = 1, createdAt = now\<rparr>"
  using assms by (simp_all add: addDocument_def Let_def decimal_0 js_def AList.update_conv')


text \<open>
  C10. The empty body, and every body of white space only, is chunked into the single
  passage \<^verbatim>\<open>'.'\<close>; \<^verbatim>\<open>addDocument\<close> of such a document therefore stores one passage in
  \<^verbatim>\<open>documentChunks\<close>, the map \<^verbatim>\<open>search\<close> scans, under the key \<^verbatim>\<open>uid_0\<close>, and records a
  passage count of one. With a fresh identifier the map grows by exactly one entry.
\<close>

theorem chunkDocument_blank_body:
  assumes "\<forall>c \<in> set (doc_content doc). isWhiteSpace c"
  shows "chunkDocument defaultMaxLength defaultOverlap (doc_content doc) = [js ''.'']
       \<and> documentChunks (addDocument st uid now doc)
           = AList.update (uid @ js ''_0'')
               \<lparr>chunk_id = uid @ js ''_0'', parentId = uid, title = doc_title doc,
                content = js ''.'', category = doc_category doc,
                tags = (case doc_tags doc of None \<Rightarrow> [] | Some ts \<Rightarrow> ts),
                index = 0, embedding = None\<rparr>
               (documentChunks st)
       \<and> (\<exists>c. map_of (documentChunks (addDocument st uid now doc)) (uid @ js ''_0'') = Some c
              \<and> content c = js ''.'')
       \<and> (\<exists>e. map_of (knowledgeBase (addDocument st uid now doc)) uid = Some e \<and> kb_chunks e = 1)
       \<and> (uid @ js ''_0'' \<notin> fst ` set (documentChunks st) \<longrightarrow>
            length (documentChunks (addDocument st uid now doc))
              = Suc (length (documentChunks st)))"
proof -
  have one: "chunkDocument defaultMaxLength defaultOverlap (doc_content doc) = [js ''.'']"
    using assms by (rule chunkDocument_blank)
  note add = addDocument_single [OF one, of st uid now]
  show ?thesis
    using one add by (simp add: AList.update_conv' update_fresh)
qed

theorem chunkDocument_blank_body_witness:
  "list_all isWhiteSpace (js ''  '')
   \<and> chunkDocument defaultMaxLength defaultOverlap (js ''  '') = [js ''.'']
   \<and> chunkDocument defaultMaxLength defaultOverlap (js '''') = [js ''.'']
   \<and> map (\<lambda>(k, c). (k, content c))
        (documentChunks (addDocument newRAGSystem (js ''d1'') (js ''t0'')
           \<lparr>doc_title = js ''Empty'', doc_content = js ''  '', doc_category = js ''general'',
            doc_tags = None\<rparr>))
       = [(js ''d1_0'', js ''.'')]"
proof -
  let ?doc = "\<lparr>doc_title = js ''Empty'', doc_content = js ''  '', doc_category = js ''general'',
                doc_tags = None\<rparr>"
  let ?empty = "\<lparr>doc_title = js ''Empty'', doc_content = js '''', doc_category = js ''general'',
                doc_tags = None\<rparr>"
  have h: "\<forall>c \<in> set (doc_content ?doc). isWhiteSpace c"
    by (simp add: js_def isWhiteSpace_def)
  have h0: "\<forall>c \<in> set (doc_content ?empty). isWhiteSpace c"
    by (simp add: js_def)
  show ?thesis
    using h chunkDocument_blank_body [OF h, of newRAGSystem "js ''d1''" "js ''t0''"]
      chunkDocument_blank_body [OF h0, of newRAGSystem "js ''d1''" "js ''t0''"]
    by (simp add: newRAGSystem_def js_def list_all_iff)
qed


lemma set_uniq: "set (uniq xs) = set xs"
  by (induction xs rule: uniq.induct) auto

lemma distinct_uniq: "distinct (uniq xs)"
  by (induction xs rule: uniq.induct) (auto simp: set_uniq)

lemma getCategories_distinct:
  "distinct (getCategories st)
   \<and> set (getCategories st) = (\<lambda>(chunkId, c). category c) ` set (documentChunks st)"
  by (simp add: getCategories_def distinct_uniq set_uniq)

lemma getDocumentStats_counts:
  "totalDocuments (getDocumentStats st) = length (knowledgeBase st)
   \<and> totalChunks (getDocumentStats st) = length (documentChunks st)
   \<and> categories (getDocumentStats st) = getCategories st"
  by (simp add: getDocumentStats_def)

lemma getDocumentStats_average:
  assumes "length (knowledgeBase st) = 3" "length (documentChunks st) = 7"
  shows "avgChunksPerDocument (getDocumentStats st) = Ratio (7 / 3)"
    and "\<bar>7 / 3 - 233 / 100\<bar> < (1 / 100 :: real)"
  using assms by (simp_all add: getDocumentStats_def divSizes_def)

lemma getDocumentStats_positive_count:
  assumes "knowledgeBase st \<noteq> []"
  shows "avgChunksPerDocument (getDocumentStats st)
           = Ratio (real (length (documentChunks st)) / real (length (knowledgeBase st)))"
  using assms by (simp add: getDocumentStats_def divSizes_def)

text \<open>
  C5. \<^verbatim>\<open>getDocumentStats\<close> on an index without documents (the state the constructor
  leaves) does not raise, but the average it reports is \<^verbatim>\<open>0 / 0\<close>, that is
  \<^verbatim>\<open>NaN\<close>, and not zero.
\<close>

theorem getDocumentStats_no_documents:
  "totalDocuments (getDocumentStats newRAGSystem) = 0
   \<and> totalChunks (getDocumentStats newRAGSystem) = 0
   \<and> avgChunksPerDocument (getDocumentStats newRAGSystem) = RatioNaN
   \<and> avgChunksPerDocument (getDocumentStats newRAGSystem) \<noteq> Ratio 0"
  by (simp add: getDocumentStats_def newRAGSystem_def divSizes_def)

section \<open>Properties of calculateTFIDF and cosineSimilarity\<close>

subsection \<open>Term frequencies\<close>

lemma tfBump_ordinary:
  assumes "token \<notin> set objectPrototypeKeys"
  shows "tfBump tf token =
           AList.update token (case map_of tf token of Some (Count c) \<Rightarrow> Count (c + 1)
                                 | Some Junk \<Rightarrow> Junk | None \<Rightarrow> Count 1) tf"
proof -
  have "token \<noteq> js ''__proto__''"
    using assms by (auto simp: objectPrototypeKeys_def)
  then show ?thesis
    using assms by (simp add: tfBump_def split: option.splits tfval.splits)
qed

lemma foldl_tfBump_ordinary:
  assumes "\<forall>t \<in> set tokens. t \<notin> set objectPrototypeKeys"
    and "\<forall>(k, v) \<in> set tf. v \<noteq> Junk"
    and "distinct (map fst tf)"
  shows "distinct (map fst (foldl tfBump tf tokens))
       \<and> (\<forall>(k, v) \<in> set (foldl tfBump tf tokens). v \<noteq> Junk)
       \<and> (\<forall>t. map_of (foldl tfBump tf tokens) t =
             (case map_of tf t of
                Some (Count c) \<Rightarrow> Some (Count (c + count_list tokens t))
              | Some Junk \<Rightarrow> Some Junk
              | None \<Rightarrow> if t \<in> set tokens then Some (Count (count_list tokens t)) else None))"
  using assms
proof (induction tokens arbitrary: tf)
  case Nil
  then show ?case by (auto split: option.splits tfval.splits)
next
  case (Cons x xs)
  define v where "v = (case map_of tf x of Some (Count c) \<Rightarrow> Count (c + 1)
                                 | Some Junk \<Rightarrow> Junk | None \<Rightarrow> Count 1)"
  have step: "tfBump tf x = AList.update x v tf"
    using tfBump_ordinary [of x tf] Cons.prems(1) by (simp add: v_def)
  have nj: "map_of tf x \<noteq> Some Junk"
    using Cons.prems(2) by (auto dest: map_of_SomeD)
  then have vc: "v \<noteq> Junk"
    by (auto simp: v_def split: option.splits tfval.splits)
  have 1: "\<forall>t \<in> set xs. t \<notin> set objectPrototypeKeys" using Cons.prems(1) by simp
  have 2: "\<forall>(k, w) \<in> set (AList.update x v tf). w \<noteq> Junk"
  proof -
    have "set (AList.update x v tf) \<subseteq> insert (x, v) (set tf)"
      by (induction tf) auto
    then show ?thesis using Cons.prems(2) vc by auto
  qed
  have 3: "distinct (map fst (AList.update x v tf))"
    using Cons.prems(3) by (simp add: AList.distinct_update)
  note IH = Cons.IH [OF 1 2 3]
  have m: "map_of (AList.update x v tf) t = (if t = x then Some v else map_of tf t)" for t
    by (simp add: AList.update_conv')
  have ih: "map_of (foldl tfBump (AList.update x v tf) xs) t =
             (case (if t = x then Some v else map_of tf t) of
                Some (Count c) \<Rightarrow> Some (Count (c + count_list xs t))
              | Some Junk \<Rightarrow> Some Junk
              | None \<Rightarrow> if t \<in> set xs then Some (Count (count_list xs t)) else None)" for t
    using IH m [of t] by simp
  have "map_of (foldl tfBump (AList.update x v tf) xs) t =
             (case map_of tf t of
                Some (Count c) \<Rightarrow> Some (Count (c + count_list (x # xs) t))
              | Some Junk \<Rightarrow> Some Junk
              | None \<Rightarrow> if t \<in> set (x # xs) then Some (Count (count_list (x # xs) t)) else None)" for t
  proof (cases "t = x")
    case True
    show ?thesis
    proof (cases "map_of tf x")
      case None
      then show ?thesis using True ih [of t] by (simp add: v_def)
    next
      case (Some w)
      with nj obtain c where "w = Count c" by (cases w) auto
      then show ?thesis using True Some ih [of t] by (simp add: v_def)
    qed
  next
    case False
    then have "x \<noteq> t" by blast
    then show ?thesis
      using False ih [of t] by (simp split: option.split tfval.split)
  qed
  moreover have "distinct (map fst (foldl tfBump (AList.update x v tf) xs))"
    and "\<forall>(k, v) \<in> set (foldl tfBump (AList.update x v tf) xs). v \<noteq> Junk"
    using IH by blast+
  ultimately show ?case unfolding foldl_Cons step by blast
qed

lemma calculateTFIDF_total_pos:
  "(term, v) \<in> set (foldl tfBump [] tokens) \<Longrightarrow> 0 < length tokens"
  by (cases tokens) auto

lemma calculateTFIDF_ordinary:
  assumes "\<forall>t \<in> set tokens. t \<notin> set objectPrototypeKeys"
  shows "map_of (calculateTFIDF tokens) t =
           (if t \<in> set tokens
            then Some (Num (real (count_list tokens t) / real (length tokens))) else None)"
    and "distinct (map fst (calculateTFIDF tokens))"
    and "fst ` set (calculateTFIDF tokens) = set tokens"
proof -
  let ?g = "\<lambda>v. case v of Count c \<Rightarrow> js_div (Num (real c)) (Num (real (length tokens))) | Junk \<Rightarrow> NaN"
  have f: "distinct (map fst (foldl tfBump [] tokens))
       \<and> (\<forall>(k, v) \<in> set (foldl tfBump [] tokens). v \<noteq> Junk)
       \<and> (\<forall>t. map_of (foldl tfBump [] tokens) t =
             (if t \<in> set tokens then Some (Count (count_list tokens t)) else None))"
    using foldl_tfBump_ordinary [OF assms, of "[]"] by simp
  have c: "calculateTFIDF tokens = map (\<lambda>(k, v). (k, ?g v)) (foldl tfBump [] tokens)"
    by (simp add: calculateTFIDF_def Let_def)
  have keys: "map fst (calculateTFIDF tokens) = map fst (foldl tfBump [] tokens)"
    unfolding c by (induction "foldl tfBump [] tokens") auto
  show "distinct (map fst (calculateTFIDF tokens))"
    using f keys by simp
  have m: "map_of (calculateTFIDF tokens) t = map_option ?g (map_of (foldl tfBump [] tokens) t)"
    unfolding c by (simp add: map_of_map)
  show "map_of (calculateTFIDF tokens) t =
           (if t \<in> set tokens
            then Some (Num (real (count_list tokens t) / real (length tokens))) else None)"
  proof (cases "t \<in> set tokens")
    case True
    then have "0 < length tokens" by (cases tokens) auto
    then show ?thesis using True f m by simp
  next
    case False
    then show ?thesis using f m by simp
  qed
  have "fst ` set (foldl tfBump [] tokens) = set tokens"
  proof -
    have "k \<in> fst ` set (foldl tfBump [] tokens) \<longleftrightarrow> k \<in> set tokens" for k
    proof -
      have "map_of (foldl tfBump [] tokens) k =
             (if k \<in> set tokens then Some (Count (count_list tokens k)) else None)"
        using f by blast
      then have "(map_of (foldl tfBump [] tokens) k = None) = (k \<notin> set tokens)"
        by simp
      then show ?thesis
        using map_of_eq_None_iff [of "foldl tfBump [] tokens" k] by metis
    qed
    then show ?thesis by blast
  qed
  then show "fst ` set (calculateTFIDF tokens) = set tokens"
    using keys by (metis list.set_map)
qed

lemma calculateTFIDF_weights_sum:
  assumes "\<forall>t \<in> set tokens. t \<notin> set objectPrototypeKeys" "tokens \<noteq> []"
  shows "(\<Sum>t \<in> set tokens. weight (calculateTFIDF tokens) t) = 1"
proof -
  have "weight (calculateTFIDF tokens) t = real (count_list tokens t) / real (length tokens)"
    if "t \<in> set tokens" for t
    using that calculateTFIDF_ordinary(1) [OF assms(1), of t] by (simp add: weight_def)
  then have "(\<Sum>t \<in> set tokens. weight (calculateTFIDF tokens) t)
           = (\<Sum>t \<in> set tokens. real (count_list tokens t) / real (length tokens))"
    by (intro sum.cong) simp_all
  also have "\<dots> = real (\<Sum>t \<in> set tokens. count_list tokens t) / real (length tokens)"
    by (simp add: sum_divide_distrib)
  also have "\<dots> = 1"
    using sum_count_set [of tokens "set tokens"] assms(2) by simp
  finally show ?thesis .
qed

subsection \<open>The Cauchy-Schwarz inequality for finite sums\<close>

lemma cauchy_schwarz_expand:
  fixes a b :: "'k \<Rightarrow> real"
  shows "(\<Sum>t\<in>T. (a t * (\<Sum>u\<in>T. (b u)\<^sup>2) - b t * (\<Sum>u\<in>T. a u * b u))\<^sup>2)
       = (\<Sum>u\<in>T. (b u)\<^sup>2) * ((\<Sum>t\<in>T. (a t)\<^sup>2) * (\<Sum>u\<in>T. (b u)\<^sup>2) - (\<Sum>u\<in>T. a u * b u)\<^sup>2)"
proof -
  define A where "A = (\<Sum>t\<in>T. (a t)\<^sup>2)"
  define B where "B = (\<Sum>u\<in>T. (b u)\<^sup>2)"
  define D where "D = (\<Sum>u\<in>T. a u * b u)"
  have "(\<Sum>t\<in>T. (a t * B - b t * D)\<^sup>2)
      = (\<Sum>t\<in>T. B\<^sup>2 * (a t)\<^sup>2 - 2 * B * D * (a t * b t) + D\<^sup>2 * (b t)\<^sup>2)"
    by (rule sum.cong) (simp_all add: power2_eq_square algebra_simps)
  also have "\<dots> = B\<^sup>2 * A - 2 * B * D * D + D\<^sup>2 * B"
    by (simp add: sum.distrib sum_subtractf sum_distrib_left A_def B_def D_def)
  also have "\<dots> = B * (A * B - D\<^sup>2)"
    by (simp add: power2_eq_square algebra_simps)
  finally show ?thesis unfolding A_def B_def D_def .
qed

lemma cauchy_schwarz_sum:
  fixes a b :: "'k \<Rightarrow> real"
  assumes "finite T"
  shows "(\<Sum>u\<in>T. a u * b u)\<^sup>2 \<le> (\<Sum>t\<in>T. (a t)\<^sup>2) * (\<Sum>u\<in>T. (b u)\<^sup>2)"
proof -
  define A where "A = (\<Sum>t\<in>T. (a t)\<^sup>2)"
  define B where "B = (\<Sum>u\<in>T. (b u)\<^sup>2)"
  define D where "D = (\<Sum>u\<in>T. a u * b u)"
  have B0: "0 \<le> B" unfolding B_def by (rule sum_nonneg) simp
  have nn: "0 \<le> B * (A * B - D\<^sup>2)"
    using cauchy_schwarz_expand [where a=a and b=b and T=T, symmetric]
      sum_nonneg [of T "\<lambda>t. (a t * B - b t * D)\<^sup>2"]
    unfolding A_def B_def D_def by simp
  show ?thesis
  proof (cases "B = 0")
    case True
    then have "\<forall>u\<in>T. (b u)\<^sup>2 = 0"
      using assms unfolding B_def by (simp add: sum_nonneg_eq_0_iff)
    then have "D = 0" unfolding D_def by simp
    then show ?thesis using True unfolding A_def B_def D_def by simp
  next
    case False
    with B0 have "0 < B" by simp
    with nn have "0 \<le> A * B - D\<^sup>2"
      by (simp add: zero_le_mult_iff)
    then show ?thesis unfolding A_def B_def D_def by simp
  qed
qed

lemma cauchy_schwarz_equality:
  fixes a b :: "'k \<Rightarrow> real"
  assumes "finite T"
    and "(\<Sum>u\<in>T. a u * b u)\<^sup>2 = (\<Sum>t\<in>T. (a t)\<^sup>2) * (\<Sum>u\<in>T. (b u)\<^sup>2)"
    and "t \<in> T"
  shows "a t * (\<Sum>u\<in>T. (b u)\<^sup>2) = b t * (\<Sum>u\<in>T. a u * b u)"
proof -
  have "(\<Sum>t\<in>T. (a t * (\<Sum>u\<in>T. (b u)\<^sup>2) - b t * (\<Sum>u\<in>T. a u * b u))\<^sup>2) = 0"
    using cauchy_schwarz_expand [where a=a and b=b and T=T] assms(2) by simp
  then have "\<forall>t\<in>T. (a t * (\<Sum>u\<in>T. (b u)\<^sup>2) - b t * (\<Sum>u\<in>T. a u * b u))\<^sup>2 = 0"
    using assms(1) by (simp add: sum_nonneg_eq_0_iff)
  then show ?thesis using assms(3) by simp
qed

subsection \<open>The loop of cosineSimilarity\<close>

lemma numeric_lookup:
  assumes "numericNonNegative v" "map_of v t = Some w"
  shows "\<exists>x. w = Num x \<and> 0 \<le> x"
proof -
  have "(t, w) \<in> set v" using assms(2) by (rule map_of_SomeD)
  then show ?thesis
    using assms(1) by (cases w) (auto simp: numericNonNegative_def list_all_iff)
qed

lemma weight_nonneg: "numericNonNegative v \<Longrightarrow> 0 \<le> weight v t"
  using numeric_lookup [of v t]
  by (auto simp: weight_def split: option.splits jsnum.splits)

lemma weight_absent: "t \<notin> vectorTerms v \<Longrightarrow> weight v t = 0"
  by (simp add: weight_def vectorTerms_def map_of_eq_None_iff [THEN iffD2])

lemma weightOrZero_numeric:
  assumes "numericNonNegative v" "t \<in> vectorTerms v \<or> t \<notin> set objectPrototypeKeys"
  shows "weightOrZero v t = Num (weight v t)"
proof (cases "map_of v t")
  case None
  then have "t \<notin> vectorTerms v" by (simp add: vectorTerms_def map_of_eq_None_iff)
  with assms(2) have "t \<notin> set objectPrototypeKeys" by simp
  then show ?thesis using None by (simp add: weightOrZero_def weight_def)
next
  case (Some w)
  then obtain x where "w = Num x" using numeric_lookup [OF assms(1)] by blast
  then show ?thesis using Some by (simp add: weightOrZero_def weight_def)
qed

lemma foldl_cosineStep_numeric:
  assumes "\<forall>t \<in> set ts. weightOrZero v1 t = Num (a t) \<and> weightOrZero v2 t = Num (b t)"
  shows "foldl (cosineStep v1 v2) (Num d, Num n1, Num n2) ts
       = (Num (d + (\<Sum>t\<leftarrow>ts. a t * b t)), Num (n1 + (\<Sum>t\<leftarrow>ts. a t * a t)),
          Num (n2 + (\<Sum>t\<leftarrow>ts. b t * b t)))"
  using assms
proof (induction ts arbitrary: d n1 n2)
  case Nil
  then show ?case by simp
next
  case (Cons t ts)
  have "cosineStep v1 v2 (Num d, Num n1, Num n2) t
      = (Num (d + a t * b t), Num (n1 + a t * a t), Num (n2 + b t * b t))"
    using Cons.prems by (simp add: Let_def)
  moreover have "\<forall>t \<in> set ts. weightOrZero v1 t = Num (a t) \<and> weightOrZero v2 t = Num (b t)"
    using Cons.prems by simp
  ultimately show ?case using Cons.IH by (simp add: add.assoc)
qed

lemma sameInheritedTerms_iff:
  "sameInheritedTerms v1 v2 \<Longrightarrow> k \<in> set objectPrototypeKeys \<Longrightarrow>
   (k \<in> vectorTerms v1) = (k \<in> vectorTerms v2)"
  by (simp add: sameInheritedTerms_def list_all_iff)

lemma cosine_sums:
  assumes "numericNonNegative v1" "numericNonNegative v2" "sameInheritedTerms v1 v2"
  shows "foldl (cosineStep v1 v2) (Num 0, Num 0, Num 0) (uniq (map fst v1 @ map fst v2))
       = (Num (dotProductOver v1 v2), Num ((euclideanNorm v1)\<^sup>2), Num ((euclideanNorm v2)\<^sup>2))"
proof -
  let ?ts = "uniq (map fst v1 @ map fst v2)"
  let ?T = "vectorTerms v1 \<union> vectorTerms v2"
  have T: "set ?ts = ?T" by (simp add: set_uniq vectorTerms_def)
  have fin: "finite ?T" by (simp add: vectorTerms_def)
  have w: "weightOrZero v1 t = Num (weight v1 t) \<and> weightOrZero v2 t = Num (weight v2 t)"
    if "t \<in> set ?ts" for t
  proof -
    from that T have "t \<in> ?T" by simp
    then have "(t \<in> vectorTerms v1 \<or> t \<notin> set objectPrototypeKeys)
             \<and> (t \<in> vectorTerms v2 \<or> t \<notin> set objectPrototypeKeys)"
      using sameInheritedTerms_iff [OF assms(3), of t] by blast
    then show ?thesis
      using weightOrZero_numeric [OF assms(1), of t] weightOrZero_numeric [OF assms(2), of t]
      by blast
  qed
  have sums: "(\<Sum>t\<leftarrow>?ts. f t) = (\<Sum>t\<in>?T. f t)" for f :: "jsstring \<Rightarrow> real"
    using sum_list_distinct_conv_sum_set [OF distinct_uniq, of f "map fst v1 @ map fst v2"] T
    by simp
  have n1: "(\<Sum>t\<in>?T. weight v1 t * weight v1 t) = (euclideanNorm v1)\<^sup>2"
  proof -
    have "(\<Sum>t\<in>?T. (weight v1 t)\<^sup>2) = (\<Sum>t\<in>vectorTerms v1. (weight v1 t)\<^sup>2)"
      by (rule sum.mono_neutral_right) (auto simp: fin weight_absent vectorTerms_def)
    moreover have "0 \<le> (\<Sum>t\<in>vectorTerms v1. (weight v1 t)\<^sup>2)"
      by (rule sum_nonneg) simp
    ultimately show ?thesis by (simp add: euclideanNorm_def power2_eq_square)
  qed
  have n2: "(\<Sum>t\<in>?T. weight v2 t * weight v2 t) = (euclideanNorm v2)\<^sup>2"
  proof -
    have "(\<Sum>t\<in>?T. (weight v2 t)\<^sup>2) = (\<Sum>t\<in>vectorTerms v2. (weight v2 t)\<^sup>2)"
      by (rule sum.mono_neutral_right) (auto simp: fin weight_absent vectorTerms_def)
    moreover have "0 \<le> (\<Sum>t\<in>vectorTerms v2. (weight v2 t)\<^sup>2)"
      by (rule sum_nonneg) simp
    ultimately show ?thesis by (simp add: euclideanNorm_def power2_eq_square)
  qed
  have "foldl (cosineStep v1 v2) (Num 0, Num 0, Num 0) ?ts
      = (Num (0 + (\<Sum>t\<leftarrow>?ts. weight v1 t * weight v2 t)),
         Num (0 + (\<Sum>t\<leftarrow>?ts. weight v1 t * weight v1 t)),
         Num (0 + (\<Sum>t\<leftarrow>?ts. weight v2 t * weight v2 t)))"
    by (rule foldl_cosineStep_numeric) (use w in blast)
  then show ?thesis
    by (simp add: sums n1 n2 dotProductOver_def)
qed

lemma euclideanNorm_nonneg: "0 \<le> euclideanNorm v"
  by (simp add: euclideanNorm_def sum_nonneg)

lemma dotProductOver_nonneg:
  "numericNonNegative v1 \<Longrightarrow> numericNonNegative v2 \<Longrightarrow> 0 \<le> dotProductOver v1 v2"
  unfolding dotProductOver_def by (intro sum_nonneg mult_nonneg_nonneg weight_nonneg)

lemma finite_vectorTerms: "finite (vectorTerms v)"
  by (simp add: vectorTerms_def)

lemma norm_sq_over_union:
  fixes v1 v2 :: vec
  shows "(euclideanNorm v1)\<^sup>2 = (\<Sum>t\<in>vectorTerms v1 \<union> vectorTerms v2. (weight v1 t)\<^sup>2)
       \<and> (euclideanNorm v2)\<^sup>2 = (\<Sum>t\<in>vectorTerms v1 \<union> vectorTerms v2. (weight v2 t)\<^sup>2)"
proof -
  have 1: "(\<Sum>t\<in>vectorTerms v1 \<union> vectorTerms v2. (weight v1 t)\<^sup>2)
         = (\<Sum>t\<in>vectorTerms v1. (weight v1 t)\<^sup>2)"
    by (rule sum.mono_neutral_right) (auto simp: finite_vectorTerms weight_absent)
  have 2: "(\<Sum>t\<in>vectorTerms v1 \<union> vectorTerms v2. (weight v2 t)\<^sup>2)
         = (\<Sum>t\<in>vectorTerms v2. (weight v2 t)\<^sup>2)"
    by (rule sum.mono_neutral_right) (auto simp: finite_vectorTerms weight_absent)
  show ?thesis
    using 1 2 by (simp add: euclideanNorm_def sum_nonneg)
qed

lemma dot_le_norms:
  assumes "numericNonNegative v1" "numericNonNegative v2"
  shows "dotProductOver v1 v2 \<le> euclideanNorm v1 * euclideanNorm v2"
proof -
  have fin: "finite (vectorTerms v1 \<union> vectorTerms v2)" by (simp add: finite_vectorTerms)
  note sq = norm_sq_over_union [of v1 v2]
  have "(dotProductOver v1 v2)\<^sup>2 \<le> (euclideanNorm v1)\<^sup>2 * (euclideanNorm v2)\<^sup>2"
    unfolding dotProductOver_def conjunct1 [OF sq] conjunct2 [OF sq]
    by (rule cauchy_schwarz_sum [OF fin])
  then have "(dotProductOver v1 v2)\<^sup>2 \<le> (euclideanNorm v1 * euclideanNorm v2)\<^sup>2"
    by (simp only: power_mult_distrib)
  moreover have "0 \<le> euclideanNorm v1 * euclideanNorm v2"
    using euclideanNorm_nonneg [of v1] euclideanNorm_nonneg [of v2] by simp
  ultimately show ?thesis by (rule power2_le_imp_le)
qed

lemma dot_eq_norms_proportional:
  assumes "dotProductOver v1 v2 = euclideanNorm v1 * euclideanNorm v2"
    and "euclideanNorm v1 \<noteq> 0" "euclideanNorm v2 \<noteq> 0"
  shows "\<exists>c>0. \<forall>t. weight v2 t = c * weight v1 t"
proof -
  let ?T = "vectorTerms v1 \<union> vectorTerms v2"
  let ?D = "dotProductOver v1 v2"
  have fin: "finite ?T" by (simp add: vectorTerms_def)
  have p1: "0 < euclideanNorm v1" and p2: "0 < euclideanNorm v2"
    using assms(2,3) euclideanNorm_nonneg [of v1] euclideanNorm_nonneg [of v2] by simp_all
  then have D: "0 < ?D" using assms(1) by simp
  have "?D\<^sup>2 = (euclideanNorm v1)\<^sup>2 * (euclideanNorm v2)\<^sup>2"
    using assms(1) by (simp add: power_mult_distrib)
  then have eq: "(\<Sum>u\<in>?T. weight v2 u * weight v1 u)\<^sup>2
               = (\<Sum>t\<in>?T. (weight v2 t)\<^sup>2) * (\<Sum>u\<in>?T. (weight v1 u)\<^sup>2)"
    using norm_sq_over_union [of v1 v2]
    by (simp add: dotProductOver_def mult.commute)
  have scaled: "weight v2 t * (euclideanNorm v1)\<^sup>2 = weight v1 t * ?D" if "t \<in> ?T" for t
    using cauchy_schwarz_equality [OF fin eq that] norm_sq_over_union [of v1 v2]
    by (simp add: dotProductOver_def mult.commute)
  define c where "c = ?D / (euclideanNorm v1)\<^sup>2"
  have c: "0 < c" using D p1 by (simp add: c_def)
  have "weight v2 t = c * weight v1 t" for t
  proof (cases "t \<in> ?T")
    case True
    have "weight v2 t = (weight v2 t * (euclideanNorm v1)\<^sup>2) / (euclideanNorm v1)\<^sup>2"
      using p1 by simp
    also have "\<dots> = (weight v1 t * ?D) / (euclideanNorm v1)\<^sup>2"
      using scaled [OF True] by simp
    finally show ?thesis by (simp add: c_def)
  next
    case False
    then show ?thesis by (simp add: weight_absent)
  qed
  then show ?thesis using c by blast
qed

lemma cosineSimilarity_numeric:
  assumes "numericNonNegative v1" "numericNonNegative v2" "sameInheritedTerms v1 v2"
  shows "cosineSimilarity v1 v2 =
           Num (if euclideanNorm v1 = 0 \<or> euclideanNorm v2 = 0 then 0
                else dotProductOver v1 v2 / (euclideanNorm v1 * euclideanNorm v2))"
  using euclideanNorm_nonneg [of v1] euclideanNorm_nonneg [of v2]
  by (simp add: cosineSimilarity_def cosine_sums [OF assms])

lemma cosineSimilarity_divisor:
  assumes "foldl (cosineStep vec1 vec2) (d, Num a, Num b) ts = (d', n1, n2)"
    and "0 \<le> a" "0 \<le> b"
  shows "(n1 = NaN \<or> (\<exists>x\<ge>0. n1 = Num x)) \<and> (n2 = NaN \<or> (\<exists>y\<ge>0. n2 = Num y))"
    and "n1 \<noteq> Num 0 \<Longrightarrow> n2 \<noteq> Num 0 \<Longrightarrow> js_mul (js_sqrt n1) (js_sqrt n2) \<noteq> Num 0"
proof -
  have inv: "(n1 = NaN \<or> (\<exists>x\<ge>0. n1 = Num x)) \<and> (n2 = NaN \<or> (\<exists>y\<ge>0. n2 = Num y))"
    if "foldl (cosineStep vec1 vec2) (d, m1, m2) ts = (d', n1, n2)"
      and "m1 = NaN \<or> (\<exists>x\<ge>0. m1 = Num x)" "m2 = NaN \<or> (\<exists>y\<ge>0. m2 = Num y)" for d m1 m2
    using that
  proof (induction ts arbitrary: d m1 m2)
    case Nil
    then show ?case by simp
  next
    case (Cons t ts)
    obtain e k1 k2 where st: "cosineStep vec1 vec2 (d, m1, m2) t = (e, k1, k2)"
      by (cases "cosineStep vec1 vec2 (d, m1, m2) t") auto
    have k1: "k1 = NaN \<or> (\<exists>x\<ge>0. k1 = Num x)"
      using st Cons.prems(2) by (cases "weightOrZero vec1 t") (auto simp: Let_def)
    have k2: "k2 = NaN \<or> (\<exists>y\<ge>0. k2 = Num y)"
      using st Cons.prems(3) by (cases "weightOrZero vec2 t") (auto simp: Let_def)
    have "foldl (cosineStep vec1 vec2) (e, k1, k2) ts = (d', n1, n2)"
      using Cons.prems(1) st by simp
    from Cons.IH [OF this k1 k2] show ?case .
  qed
  show r: "(n1 = NaN \<or> (\<exists>x\<ge>0. n1 = Num x)) \<and> (n2 = NaN \<or> (\<exists>y\<ge>0. n2 = Num y))"
    using inv [OF assms(1)] assms(2,3) by blast
  show "js_mul (js_sqrt n1) (js_sqrt n2) \<noteq> Num 0" if "n1 \<noteq> Num 0" "n2 \<noteq> Num 0"
    using r that by (cases n1; cases n2) auto
qed


subsection \<open>Vectors of term frequencies\<close>

lemma calculateTFIDF_entries:
  assumes "\<forall>t \<in> set tokens. t \<notin> set objectPrototypeKeys"
    and "(t, w) \<in> set (calculateTFIDF tokens)"
  shows "w = Num (real (count_list tokens t) / real (length tokens))" "t \<in> set tokens"
proof -
  have "map_of (calculateTFIDF tokens) t = Some w"
    using calculateTFIDF_ordinary(2) [OF assms(1)] assms(2) by simp
  then show "w = Num (real (count_list tokens t) / real (length tokens))" "t \<in> set tokens"
    using calculateTFIDF_ordinary(1) [OF assms(1), of t] by (simp_all split: if_splits)
qed

lemma calculateTFIDF_numeric:
  assumes "\<forall>t \<in> set tokens. t \<notin> set objectPrototypeKeys"
  shows "numericNonNegative (calculateTFIDF tokens)"
    and "vectorTerms (calculateTFIDF tokens) = set tokens"
    and "weight (calculateTFIDF tokens) t = real (count_list tokens t) / real (length tokens)"
proof -
  show "numericNonNegative (calculateTFIDF tokens)"
    using calculateTFIDF_entries(1) [OF assms]
    by (fastforce simp: numericNonNegative_def list_all_iff)
  show "vectorTerms (calculateTFIDF tokens) = set tokens"
    using calculateTFIDF_ordinary(3) [OF assms] by (simp add: vectorTerms_def)
  show "weight (calculateTFIDF tokens) t = real (count_list tokens t) / real (length tokens)"
    using calculateTFIDF_ordinary(1) [OF assms, of t]
    by (simp add: weight_def count_list_0_iff [THEN iffD2])
qed

lemma calculateTFIDF_sameInherited:
  assumes "\<forall>t \<in> set tokens1. t \<notin> set objectPrototypeKeys"
    and "\<forall>t \<in> set tokens2. t \<notin> set objectPrototypeKeys"
  shows "sameInheritedTerms (calculateTFIDF tokens1) (calculateTFIDF tokens2)"
  using assms
  by (auto simp: sameInheritedTerms_def list_all_iff calculateTFIDF_numeric(2))

lemma cosine_one_same_frequencies:
  assumes o1: "\<forall>t \<in> set tokens1. t \<notin> set objectPrototypeKeys"
    and o2: "\<forall>t \<in> set tokens2. t \<notin> set objectPrototypeKeys"
    and one: "cosineSimilarity (calculateTFIDF tokens1) (calculateTFIDF tokens2) = Num 1"
  shows "real (count_list tokens2 t) / real (length tokens2)
       = real (count_list tokens1 t) / real (length tokens1)"
proof -
  let ?v1 = "calculateTFIDF tokens1" and ?v2 = "calculateTFIDF tokens2"
  let ?T = "set tokens1 \<union> set tokens2"
  have val: "cosineSimilarity ?v1 ?v2 =
           Num (if euclideanNorm ?v1 = 0 \<or> euclideanNorm ?v2 = 0 then 0
                else dotProductOver ?v1 ?v2 / (euclideanNorm ?v1 * euclideanNorm ?v2))"
    using calculateTFIDF_numeric(1) [OF o1] calculateTFIDF_numeric(1) [OF o2]
      calculateTFIDF_sameInherited [OF o1 o2]
    by (rule cosineSimilarity_numeric)
  with one have nz: "euclideanNorm ?v1 \<noteq> 0" "euclideanNorm ?v2 \<noteq> 0"
    and eq: "dotProductOver ?v1 ?v2 = euclideanNorm ?v1 * euclideanNorm ?v2"
    by (auto split: if_splits)
  from dot_eq_norms_proportional [OF eq nz] obtain c where
    c: "0 < c" "\<And>u. weight ?v2 u = c * weight ?v1 u"
    by blast
  have ne1: "tokens1 \<noteq> []"
  proof
    assume "tokens1 = []"
    then have "euclideanNorm ?v1 = 0"
      by (simp add: calculateTFIDF_def euclideanNorm_def vectorTerms_def)
    with nz show False by simp
  qed
  have ne2: "tokens2 \<noteq> []"
  proof
    assume "tokens2 = []"
    then have "euclideanNorm ?v2 = 0"
      by (simp add: calculateTFIDF_def euclideanNorm_def vectorTerms_def)
    with nz show False by simp
  qed
  have s1: "(\<Sum>u\<in>?T. weight ?v1 u) = 1"
  proof -
    have "(\<Sum>u\<in>?T. weight ?v1 u) = (\<Sum>u\<in>set tokens1. weight ?v1 u)"
      by (rule sum.mono_neutral_right)
        (auto simp: calculateTFIDF_numeric(3) [OF o1] count_list_0_iff [THEN iffD2])
    then show ?thesis using calculateTFIDF_weights_sum [OF o1 ne1] by simp
  qed
  have s2: "(\<Sum>u\<in>?T. weight ?v2 u) = 1"
  proof -
    have "(\<Sum>u\<in>?T. weight ?v2 u) = (\<Sum>u\<in>set tokens2. weight ?v2 u)"
      by (rule sum.mono_neutral_right)
        (auto simp: calculateTFIDF_numeric(3) [OF o2] count_list_0_iff [THEN iffD2])
    then show ?thesis using calculateTFIDF_weights_sum [OF o2 ne2] by simp
  qed
  have "(\<Sum>u\<in>?T. weight ?v2 u) = c * (\<Sum>u\<in>?T. weight ?v1 u)"
    by (simp add: c(2) sum_distrib_left)
  with s1 s2 have "c = 1" by simp
  then have "weight ?v2 t = weight ?v1 t" using c(2) [of t] by simp
  then show ?thesis
    by (simp add: calculateTFIDF_numeric(3) [OF o1] calculateTFIDF_numeric(3) [OF o2])
qed

subsection \<open>Cosines of the example vectors\<close>

lemma sqrt_25_49: "sqrt (25 / 49) = 5 / 7"
  by (rule real_sqrt_unique) (simp_all add: power2_eq_square)

lemma fold1: "foldl (cosineStep [(js ''limit'', Num 1)] [(js ''limit'', Num (3 / 7)), (js ''turev'', Num (4 / 7))])
         (Num 0, Num 0, Num 0)
         (uniq (map fst [(js ''limit'', Num 1)] @ map fst [(js ''limit'', Num (3 / 7)), (js ''turev'', Num (4 / 7))]))
       = (Num (3 / 7), Num 1, Num (25 / 49))"
  by code_simp

lemma cos1: "cosineSimilarity [(js ''limit'', Num 1)] [(js ''limit'', Num (3 / 7)), (js ''turev'', Num (4 / 7))] = Num (3 / 5)"
  unfolding cosineSimilarity_def fold1 by (simp add: sqrt_25_49)

lemma fold2: "foldl (cosineStep [(js ''limit'', Num 1)] [(js ''limit'', Num 1)])
         (Num 0, Num 0, Num 0)
         (uniq (map fst [(js ''limit'', Num 1)] @ map fst [(js ''limit'', Num 1)]))
       = (Num 1, Num 1, Num 1)"
  by code_simp

lemma cos2: "cosineSimilarity [(js ''limit'', Num 1)] [(js ''limit'', Num 1)] = Num 1"
  unfolding cosineSimilarity_def fold2 by simp

lemma fold3: "foldl (cosineStep [(js ''limit'', Num 1)] [(js ''kuvvet'', Num 1)])
         (Num 0, Num 0, Num 0)
         (uniq (map fst [(js ''limit'', Num 1)] @ map fst [(js ''kuvvet'', Num 1)]))
       = (Num 0, Num 1, Num 1)"
  by code_simp

lemma cos3: "cosineSimilarity [(js ''limit'', Num 1)] [(js ''kuvvet'', Num 1)] = Num 0"
  unfolding cosineSimilarity_def fold3 by simp


subsection \<open>Claims about the term-weight vectors\<close>

text \<open>
  C3. For a token that is the name of a property inherited from \<^verbatim>\<open>Object.prototype\<close> the
  vector does not hold the token's frequency. The query \<^verbatim>\<open>'constructor'\<close> is tokenized to
  the single token \<^verbatim>\<open>constructor\<close>, whose weight comes out as \<^verbatim>\<open>NaN\<close> instead of 1; the
  token \<^verbatim>\<open>__proto__\<close> gets no entry at all, so that the weights of the two tokens
  \<^verbatim>\<open>__proto__\<close>, \<^verbatim>\<open>limit\<close> sum to 1/2. (For token sequences free of these names the
  weights are the frequencies and, in exact arithmetic, sum to 1: lemmas \<open>calculateTFIDF_ordinary\<close> and
  \<open>calculateTFIDF_weights_sum\<close>.)
\<close>

theorem calculateTFIDF_inherited_names:
  "tokenize (js ''constructor'') = [js ''constructor'']
   \<and> calculateTFIDF [js ''constructor''] = [(js ''constructor'', NaN)]
   \<and> calculateTFIDF [js ''__proto__'', js ''limit''] = [(js ''limit'', Num (1 / 2))]"
  by code_simp


subsection \<open>The cosine in exact arithmetic\<close>

text \<open>
  A property of the formula, in the exact arithmetic of the model: for two vectors with
  non-negative weights in which every name inherited from \<^verbatim>\<open>Object.prototype\<close> is a term of
  both or of neither, the loop computes the dot product over the union of the terms divided
  by the product of the Euclidean norms, and 0 when either norm is 0; that quotient lies in
  [0,1] and is 1 only for proportional vectors. The doubles the program computes are
  rounded: they can exceed 1 by a unit in the last place and can be 1 for vectors that are
  not proportional, so this lemma is no bound on them.
\<close>

lemma cosineSimilarity_exact:
  assumes "numericNonNegative vec1" "numericNonNegative vec2" "sameInheritedTerms vec1 vec2"
  shows "\<exists>s. cosineSimilarity vec1 vec2 = Num s
           \<and> s = (if euclideanNorm vec1 = 0 \<or> euclideanNorm vec2 = 0 then 0
                  else dotProductOver vec1 vec2 / (euclideanNorm vec1 * euclideanNorm vec2))
           \<and> 0 \<le> s \<and> s \<le> 1
           \<and> (s = 1 \<longrightarrow> (\<exists>c>0. \<forall>term. weight vec2 term = c * weight vec1 term))"
proof -
  define s where "s = (if euclideanNorm vec1 = 0 \<or> euclideanNorm vec2 = 0 then 0
                  else dotProductOver vec1 vec2 / (euclideanNorm vec1 * euclideanNorm vec2))"
  have val: "cosineSimilarity vec1 vec2 = Num s"
    unfolding s_def using assms by (rule cosineSimilarity_numeric)
  have d0: "0 \<le> dotProductOver vec1 vec2"
    using assms(1,2) by (rule dotProductOver_nonneg)
  have dn: "dotProductOver vec1 vec2 \<le> euclideanNorm vec1 * euclideanNorm vec2"
    using assms(1,2) by (rule dot_le_norms)
  have n0: "0 \<le> euclideanNorm vec1 * euclideanNorm vec2"
    using euclideanNorm_nonneg [of vec1] euclideanNorm_nonneg [of vec2] by simp
  have lo: "0 \<le> s" unfolding s_def using d0 n0 by simp
  have hi: "s \<le> 1"
  proof (cases "euclideanNorm vec1 = 0 \<or> euclideanNorm vec2 = 0")
    case True
    then show ?thesis by (simp add: s_def)
  next
    case False
    then have "0 < euclideanNorm vec1" "0 < euclideanNorm vec2"
      using euclideanNorm_nonneg [of vec1] euclideanNorm_nonneg [of vec2] by simp_all
    then have "0 < euclideanNorm vec1 * euclideanNorm vec2" by simp
    then show ?thesis using False dn by (simp add: s_def)
  qed
  have one: "\<exists>c>0. \<forall>term. weight vec2 term = c * weight vec1 term" if "s = 1"
  proof -
    have nz: "euclideanNorm vec1 \<noteq> 0 \<and> euclideanNorm vec2 \<noteq> 0"
      using that by (auto simp: s_def split: if_splits)
    then have "dotProductOver vec1 vec2 = euclideanNorm vec1 * euclideanNorm vec2"
      using that by (simp add: s_def)
    then show ?thesis using nz by (intro dot_eq_norms_proportional) simp_all
  qed
  show ?thesis using val lo hi one s_def by blast
qed

subsection \<open>Claims about cosineSimilarity\<close>

text \<open>
  C2. For the vectors \<^verbatim>\<open>{constructor: 1}\<close> and \<^verbatim>\<open>{limit: 1}\<close>, both with non-negative
  weights, the dot product over the union of the terms is 0 and both Euclidean norms are 1,
  so that the cosine is 0. \<^verbatim>\<open>cosineSimilarity\<close> returns \<^verbatim>\<open>NaN\<close>, which is not a value in
  [0,1]: \<^verbatim>\<open>vec2['constructor'] || 0\<close> is the inherited function and not 0, and the products
  with it are \<^verbatim>\<open>NaN\<close>.
\<close>

theorem cosineSimilarity_inherited_name:
  "numericNonNegative [(js ''constructor'', Num 1)]
   \<and> numericNonNegative [(js ''limit'', Num 1)]
   \<and> dotProductOver [(js ''constructor'', Num 1)] [(js ''limit'', Num 1)] = 0
   \<and> euclideanNorm [(js ''constructor'', Num 1)] = 1
   \<and> euclideanNorm [(js ''limit'', Num 1)] = 1
   \<and> cosineSimilarity [(js ''constructor'', Num 1)] [(js ''limit'', Num 1)] = NaN"
proof -
  have ne: "js ''constructor'' \<noteq> js ''limit''"
    by (simp add: js_def)
  have "foldl (cosineStep [(js ''constructor'', Num 1)] [(js ''limit'', Num 1)])
          (Num 0, Num 0, Num 0)
          (uniq (map fst [(js ''constructor'', Num 1)] @ map fst [(js ''limit'', Num 1)]))
        = (NaN, Num 1, NaN)"
    by code_simp
  then have "cosineSimilarity [(js ''constructor'', Num 1)] [(js ''limit'', Num 1)] = NaN"
    by (simp add: cosineSimilarity_def)
  moreover have "dotProductOver [(js ''constructor'', Num 1)] [(js ''limit'', Num 1)] = 0"
    using ne by (simp add: dotProductOver_def vectorTerms_def weight_def)
  moreover have "euclideanNorm [(js ''constructor'', Num 1)] = 1"
    "euclideanNorm [(js ''limit'', Num 1)] = 1"
    by (simp_all add: euclideanNorm_def vectorTerms_def weight_def)
  ultimately show ?thesis
    by (simp add: numericNonNegative_def)
qed


section \<open>Properties of search\<close>

subsection \<open>The scan, the sort and the cut\<close>

lemma js_ge_Num: "js_ge s (Num m) \<longleftrightarrow> (\<exists>x. s = Num x \<and> m \<le> x)"
  by (cases s) auto

lemma scan_Inr:
  "scan qe cat m acc xs = Inr rs \<Longrightarrow>
   rs = acc @ filter (\<lambda>r. js_ge (score r) (Num m))
                (map (scored qe) (filter (\<lambda>(cid, c). \<not> skipsCategory cat c) xs))"
proof (induction xs arbitrary: acc)
  case Nil
  then show ?case by simp
next
  case (Cons p xs)
  obtain cid c where p: "p = (cid, c)" by (cases p) auto
  show ?case
  proof (cases "skipsCategory cat c")
    case True
    then show ?thesis using Cons p by simp
  next
    case False
    then obtain e where e: "embedding c = Some e"
      using Cons.prems p by (cases "embedding c") auto
    show ?thesis
    proof (cases "js_ge (cosineSimilarity qe e) (Num m)")
      case True
      then have "scan qe cat m (acc @ [\<lparr>chunkId = cid, score = cosineSimilarity qe e, chunk = c\<rparr>]) xs = Inr rs"
        using Cons.prems p False e by (simp add: Let_def)
      from Cons.IH [OF this] show ?thesis
        using p False e True by (simp add: scored_def)
    next
      case nge: False
      then have "scan qe cat m acc xs = Inr rs"
        using Cons.prems p False e by (simp add: Let_def)
      from Cons.IH [OF this] show ?thesis
        using p False e nge by (simp add: scored_def)
    qed
  qed
qed

lemma scan_returns:
  "list_all (\<lambda>(cid, c). skipsCategory cat c \<or> embedding c \<noteq> None) xs \<Longrightarrow>
   \<exists>rs. scan qe cat m acc xs = Inr rs"
proof (induction xs arbitrary: acc)
  case Nil
  then show ?case by simp
next
  case (Cons p xs)
  obtain cid c where p: "p = (cid, c)" by (cases p) auto
  from Cons.prems have rest: "list_all (\<lambda>(cid, c). skipsCategory cat c \<or> embedding c \<noteq> None) xs"
    by simp
  show ?case
  proof (cases "skipsCategory cat c")
    case True
    then show ?thesis using Cons.IH [OF rest] p by simp
  next
    case False
    then obtain e where e: "embedding c = Some e"
      using Cons.prems p by auto
    show ?thesis
      using Cons.IH [OF rest] p False e by (simp add: Let_def)
  qed
qed

lemma insertBy_insort:
  assumes "score x \<noteq> NaN" "\<forall>y \<in> set ys. score y \<noteq> NaN"
  shows "insertBy byScoreDescending x ys = insort_key (\<lambda>r. - scoreValue r) x ys"
  using assms
proof (induction ys)
  case Nil
  then show ?case by simp
next
  case (Cons y ys)
  obtain a where a: "score x = Num a" using Cons.prems(1) by (cases "score x") auto
  obtain b where b: "score y = Num b" using Cons.prems(2) by (cases "score y") auto
  show ?case using Cons a b by (auto simp: byScoreDescending_def)
qed

lemma jsSort_sort_key:
  assumes "\<forall>y \<in> set xs. score y \<noteq> NaN"
  shows "jsSort byScoreDescending xs = sort_key (\<lambda>r. - scoreValue r) xs"
  using assms
proof (induction xs)
  case Nil
  then show ?case by (simp add: jsSort_def)
next
  case (Cons x xs)
  then have IH: "jsSort byScoreDescending xs = sort_key (\<lambda>r. - scoreValue r) xs" by simp
  have "\<forall>y \<in> set (sort_key (\<lambda>r. - scoreValue r) xs). score y \<noteq> NaN"
    using Cons.prems by simp
  then show ?case
    using insertBy_insort [of x "sort_key (\<lambda>r. - scoreValue r) xs"] Cons.prems IH
    by (simp add: jsSort_def)
qed

lemma prefix_sliceTo: "prefix (sliceTo n xs) xs"
  by (simp add: sliceTo_def take_is_prefix)

lemma length_sliceTo: "0 \<le> n \<Longrightarrow> length (sliceTo n xs) \<le> nat n"
  by (simp add: sliceTo_def)


lemma filter_score_sorted:
  assumes "\<forall>y \<in> set xs. score y \<noteq> NaN"
  shows "filter (\<lambda>r. score r = s) (sort_key (\<lambda>r. - scoreValue r) xs)
       = filter (\<lambda>r. score r = s) xs"
proof (cases s)
  case NaN
  have "filter (\<lambda>r. score r = NaN) (sort_key (\<lambda>r. - scoreValue r) xs) = []"
    using assms by (auto simp: filter_empty_conv)
  moreover have "filter (\<lambda>r. score r = NaN) xs = []"
    using assms by (auto simp: filter_empty_conv)
  ultimately show ?thesis using NaN by simp
next
  case (Num x)
  have eq: "(score r = Num x) = (- scoreValue r = - x)" if "score r \<noteq> NaN" for r
    using that by (cases "score r") auto
  have "filter (\<lambda>r. score r = Num x) (sort_key (\<lambda>r. - scoreValue r) xs)
      = filter (\<lambda>r. - scoreValue r = - x) (sort_key (\<lambda>r. - scoreValue r) xs)"
    using assms eq by (intro filter_cong) auto
  also have "\<dots> = filter (\<lambda>r. - scoreValue r = - x) xs"
    by (rule sort_key_stable)
  also have "\<dots> = filter (\<lambda>r. score r = Num x) xs"
    using assms eq by (intro filter_cong) auto
  finally show ?thesis using Num by simp
qed

lemma search_Inr:
  assumes "search st query opts = Inr results"
  shows "initialized st"
    and "results = sliceTo (maxResultsOf opts)
           (sort_key (\<lambda>r. - scoreValue r)
              (filter (\<lambda>r. js_ge (score r) (Num (minScoreOf opts)))
                 (encountered st query (opt_category opts))))"
proof -
  show i: "initialized st" using assms by (auto simp: search_def split: if_splits)
  obtain scores where sc:
    "scan (calculateTFIDF (tokenize query)) (opt_category opts) (minScoreOf opts) []
       (documentChunks st) = Inr scores"
    and r: "results = sliceTo (maxResultsOf opts) (jsSort byScoreDescending scores)"
    using assms i by (auto simp: search_def Let_def split: sum.splits)
  have scores: "scores = filter (\<lambda>r. js_ge (score r) (Num (minScoreOf opts)))
                 (encountered st query (opt_category opts))"
    using scan_Inr [OF sc] by (simp add: encountered_def)
  then have "\<forall>y \<in> set scores. score y \<noteq> NaN"
    by (auto simp: js_ge_Num)
  then have "jsSort byScoreDescending scores = sort_key (\<lambda>r. - scoreValue r) scores"
    by (rule jsSort_sort_key)
  then show "results = sliceTo (maxResultsOf opts)
           (sort_key (\<lambda>r. - scoreValue r)
              (filter (\<lambda>r. js_ge (score r) (Num (minScoreOf opts)))
                 (encountered st query (opt_category opts))))"
    using r scores by simp
qed

lemma search_returns:
  assumes "initialized st" "list_all (\<lambda>(cid, c). embedding c \<noteq> None) (documentChunks st)"
  shows "\<exists>results. search st query opts = Inr results"
proof -
  have "list_all (\<lambda>(cid, c). skipsCategory (opt_category opts) c \<or> embedding c \<noteq> None)
          (documentChunks st)"
    using assms(2) by (auto simp: list_all_iff)
  from scan_returns [OF this]
  obtain rs where "scan (calculateTFIDF (tokenize query)) (opt_category opts) (minScoreOf opts) []
       (documentChunks st) = Inr rs"
    by blast
  then show ?thesis using assms(1) by (simp add: search_def Let_def)
qed


subsection \<open>The example index\<close>

lemma exampleIndex_chunks:
  "documentChunks exampleIndex =
     [(js ''d1_0'', exampleChunk ''d1'' ''math'' ''limit limit limit turev turev turev turev.''
                      [(js ''limit'', Num (3 / 7)), (js ''turev'', Num (4 / 7))]),
      (js ''d2_0'', exampleChunk ''d2'' ''math'' ''limit.'' [(js ''limit'', Num 1)]),
      (js ''d3_0'', exampleChunk ''d3'' ''physics'' ''kuvvet.'' [(js ''kuvvet'', Num 1)]),
      (js ''d4_0'', exampleChunk ''d4'' ''math'' ''Limit..'' [(js ''limit'', Num 1)])]"
  by code_simp

lemma exampleIndex_initialized: "initialized exampleIndex"
  by (simp add: exampleIndex_def)

lemma query_limit: "calculateTFIDF (tokenize (js ''limit'')) = [(js ''limit'', Num 1)]"
  by code_simp

lemma skips: "\<not> skipsCategory None c"
  by (simp add: skipsCategory_def)

lemma search_limit:
  "search exampleIndex (js ''limit'') \<lparr>opt_category = None, opt_maxResults = n, opt_minScore = None\<rparr>
   = Inr (sliceTo (maxResultsOf \<lparr>opt_category = None, opt_maxResults = n, opt_minScore = None\<rparr>)
       [\<lparr>chunkId = js ''d2_0'', score = Num 1,
         chunk = exampleChunk ''d2'' ''math'' ''limit.'' [(js ''limit'', Num 1)]\<rparr>,
        \<lparr>chunkId = js ''d4_0'', score = Num 1,
         chunk = exampleChunk ''d4'' ''math'' ''Limit..'' [(js ''limit'', Num 1)]\<rparr>,
        \<lparr>chunkId = js ''d1_0'', score = Num (3 / 5),
         chunk = exampleChunk ''d1'' ''math'' ''limit limit limit turev turev turev turev.''
                      [(js ''limit'', Num (3 / 7)), (js ''turev'', Num (4 / 7))]\<rparr>])"
  by (simp add: search_def exampleIndex_initialized exampleIndex_chunks query_limit Let_def skips
      minScoreOf_def exampleChunk_def cos1 cos2 cos3 jsSort_def byScoreDescending_def)

subsection \<open>A blank query\<close>

lemma lowerUnit_white: "isWhiteSpace c \<Longrightarrow> lowerUnit c = [c]"
  by (auto simp: isWhiteSpace_def lowerUnit_def word_le_nat_alt)

lemma toLowerCase_blank: "list_all isWhiteSpace q \<Longrightarrow> toLowerCase q = q"
  by (induction q) (simp_all add: toLowerCase_def lowerUnit_white)

lemma tokenize_kelvin_sign: "tokenize (8490 # js ''elvin'') = [js ''kelvin'']"
  by code_simp

lemma splitRuns_blank:
  assumes "list_all sep q"
  shows "splitRuns sep q = (if q = [] then [[]] else [[], []])"
proof (cases q)
  case Nil
  then show ?thesis using splitRuns_single [of sep "[]"] by simp
next
  case (Cons c cs)
  have d: "dropWhile sep q = []" using assms by (induction q) simp_all
  have "dropWhile (\<lambda>c. \<not> sep c) q = q" "takeWhile (\<lambda>c. \<not> sep c) q = []"
    using assms Cons by simp_all
  then have "splitRuns sep q = [] # splitRuns sep []"
    using splitRuns_Cons [of sep q] Cons d by simp
  then show ?thesis using splitRuns_single [of sep "[]"] Cons by simp
qed

lemma tokenize_blank:
  assumes "list_all isWhiteSpace q"
  shows "tokenize q = []"
proof -
  have "map (\<lambda>c. if isWordChar c \<or> isWhiteSpace c \<or> c \<in> set turkishLetters then c else 32) q = q"
    using assms by (induction q) simp_all
  then show ?thesis
    using assms by (simp add: tokenize_def toLowerCase_blank splitRuns_blank)
qed

lemma trim_blank:
  assumes "list_all isWhiteSpace q"
  shows "trim q = []"
proof -
  have d: "dropWhile isWhiteSpace q = []"
    using assms by (induction q) simp_all
  show ?thesis unfolding trim_def d by simp
qed

lemma calculateTFIDF_Nil: "calculateTFIDF [] = []"
  by (simp add: calculateTFIDF_def)

lemma cosineStep_empty_query:
  assumes "n1 = Num 0 \<or> n1 = NaN"
    and "foldl (cosineStep [] v) (d, n1, n2) ts = (d', n1', n2')"
  shows "n1' = Num 0 \<or> n1' = NaN"
  using assms
proof (induction ts arbitrary: d n1 n2)
  case Nil
  then show ?case by simp
next
  case (Cons t ts)
  obtain d1 m1 m2 where st: "cosineStep [] v (d, n1, n2) t = (d1, m1, m2)"
    by (cases "cosineStep [] v (d, n1, n2) t") auto
  have "m1 = Num 0 \<or> m1 = NaN"
    using st Cons.prems(1) by (auto simp: weightOrZero_def Let_def)
  moreover have "foldl (cosineStep [] v) (d1, m1, m2) ts = (d', n1', n2')"
    using Cons.prems(2) st by simp
  ultimately show ?case by (rule Cons.IH)
qed

lemma cosineSimilarity_empty_query:
  "cosineSimilarity [] v = Num 0 \<or> cosineSimilarity [] v = NaN"
proof -
  obtain d n1 n2 where f:
    "foldl (cosineStep [] v) (Num 0, Num 0, Num 0) (uniq (map fst [] @ map fst v)) = (d, n1, n2)"
    by (cases "foldl (cosineStep [] v) (Num 0, Num 0, Num 0) (uniq (map fst [] @ map fst v))") auto
  have "n1 = Num 0 \<or> n1 = NaN"
    by (rule cosineStep_empty_query [OF _ f]) simp
  then show ?thesis
    using f by (auto simp: cosineSimilarity_def)
qed

lemma encountered_blank:
  assumes "list_all isWhiteSpace q" "r \<in> set (encountered st q cat)"
  shows "score r = Num 0 \<or> score r = NaN"
proof -
  from assms(2) obtain cid c where "r = scored [] (cid, c)"
    by (auto simp: encountered_def tokenize_blank [OF assms(1)] calculateTFIDF_Nil)
  then have "score r = cosineSimilarity [] (the (embedding c))"
    by (simp add: scored_def)
  then show ?thesis using cosineSimilarity_empty_query [of "the (embedding c)"] by simp
qed

lemma search_Inr_bounds:
  assumes "search st q opts = Inr results"
  shows "set results \<subseteq> set (filter (\<lambda>r. js_ge (score r) (Num (minScoreOf opts)))
                                (encountered st q (opt_category opts)))"
    and "0 \<le> maxResultsOf opts \<Longrightarrow> length results \<le> nat (maxResultsOf opts)"
proof -
  define passed where "passed = filter (\<lambda>r. js_ge (score r) (Num (minScoreOf opts)))
                 (encountered st q (opt_category opts))"
  have r: "results = sliceTo (maxResultsOf opts) (sort_key (\<lambda>r. - scoreValue r) passed)"
    using search_Inr(2) [OF assms] by (simp add: passed_def)
  show "set results \<subseteq> set (filter (\<lambda>r. js_ge (score r) (Num (minScoreOf opts)))
                                (encountered st q (opt_category opts)))"
    using set_mono_prefix [OF prefix_sliceTo, of "maxResultsOf opts" "sort_key (\<lambda>r. - scoreValue r) passed"]
    unfolding r passed_def by simp
  show "length results \<le> nat (maxResultsOf opts)" if "0 \<le> maxResultsOf opts"
    unfolding r using that by (rule length_sliceTo)
qed

lemma search_blank:
  assumes "list_all isWhiteSpace q"
    and "initialized st" "list_all (\<lambda>(cid, c). embedding c \<noteq> None) (documentChunks st)"
  shows "\<exists>results. search st q opts = Inr results
               \<and> (0 < minScoreOf opts \<longrightarrow> results = [])
               \<and> (\<forall>r \<in> set results. score r = Num 0)"
proof -
  obtain results where res: "search st q opts = Inr results"
    using search_returns [OF assms(2,3)] by blast
  have zero: "score x = Num 0 \<and> minScoreOf opts \<le> 0" if "x \<in> set results" for x
    using that search_Inr_bounds(1) [OF res]
      encountered_blank [OF assms(1), of x st "opt_category opts"]
    by (auto simp: js_ge_Num)
  have "results = []" if "0 < minScoreOf opts"
  proof (cases results)
    case Nil
    then show ?thesis .
  next
    case (Cons x xs)
    then have "x \<in> set results" by simp
    then show ?thesis using zero that by fastforce
  qed
  then show ?thesis using res zero by blast
qed

lemma exampleIndex_embedded:
  "list_all (\<lambda>(cid, c). embedding c \<noteq> None) (documentChunks exampleIndex)"
  by (simp add: exampleIndex_chunks exampleChunk_def)


subsection \<open>Claims about search\<close>

text \<open>
  C1 (amended). On an initialized index whose passages all have embeddings, \<^verbatim>\<open>search\<close>
  returns a list. Whenever it returns a list, every entry is a passage the scan has met,
  with a cosine score of at least \<^verbatim>\<open>minScore\<close>; the list is sorted by score in descending
  order (\<^verbatim>\<open>a.score >= b.score\<close> for every entry \<open>a\<close> before an entry \<open>b\<close>); the entries of any one score are an initial part of the passages of that score in
  the order the scan met them; and, when \<^verbatim>\<open>maxResults\<close> is not negative, the list has at
  most \<^verbatim>\<open>maxResults\<close> entries.
\<close>

theorem search_ranked:
  "(initialized st \<and> list_all (\<lambda>(cid, c). embedding c \<noteq> None) (documentChunks st)
      \<longrightarrow> (\<exists>results. search st query opts = Inr results))
   \<and> (\<forall>results. search st query opts = Inr results \<longrightarrow>
         (\<forall>r \<in> set results. r \<in> set (encountered st query (opt_category opts))
                                \<and> js_ge (score r) (Num (minScoreOf opts)))
       \<and> sorted_wrt (\<lambda>a b. js_ge (score a) (score b)) results
       \<and> (\<forall>s. prefix (filter (\<lambda>r. score r = s) results)
                       (filter (\<lambda>r. score r = s) (encountered st query (opt_category opts))))
       \<and> (0 \<le> maxResultsOf opts \<longrightarrow> length results \<le> nat (maxResultsOf opts)))"
proof (intro conjI allI impI)
  assume "initialized st \<and> list_all (\<lambda>(cid, c). embedding c \<noteq> None) (documentChunks st)"
  then show "\<exists>results. search st query opts = Inr results"
    using search_returns by blast
next
  fix results
  assume a: "search st query opts = Inr results"
  define enc where "enc = encountered st query (opt_category opts)"
  define passed where "passed = filter (\<lambda>r. js_ge (score r) (Num (minScoreOf opts))) enc"
  define ranked where "ranked = sort_key (\<lambda>r. - scoreValue r) passed"
  have res: "results = sliceTo (maxResultsOf opts) ranked"
    using search_Inr(2) [OF a] by (simp add: ranked_def passed_def enc_def)
  have pre: "prefix results ranked" unfolding res by (rule prefix_sliceTo)
  have nn: "\<forall>y \<in> set passed. score y \<noteq> NaN"
    by (auto simp: passed_def js_ge_Num)
  show "\<forall>r \<in> set results. r \<in> set (encountered st query (opt_category opts))
                                \<and> js_ge (score r) (Num (minScoreOf opts))"
  proof
    fix r assume "r \<in> set results"
    then have "r \<in> set ranked" using pre set_mono_prefix by blast
    then have "r \<in> set passed" by (simp add: ranked_def)
    then show "r \<in> set (encountered st query (opt_category opts))
                                \<and> js_ge (score r) (Num (minScoreOf opts))"
      by (simp add: passed_def enc_def)
  qed
  have "sorted (map (\<lambda>r. - scoreValue r) ranked)"
    unfolding ranked_def by (rule sorted_sort_key)
  then have "sorted_wrt (\<lambda>a b. scoreValue b \<le> scoreValue a) ranked"
    by (simp add: sorted_map)
  moreover have "js_ge (score a) (score b)"
    if "a \<in> set ranked" "b \<in> set ranked" "scoreValue b \<le> scoreValue a" for a b
  proof -
    from that(1,2) nn have "score a \<noteq> NaN" "score b \<noteq> NaN"
      by (simp_all add: ranked_def)
    then show ?thesis using that(3) by (cases "score a"; cases "score b") auto
  qed
  ultimately have "sorted_wrt (\<lambda>a b. js_ge (score a) (score b)) ranked"
    by (rule sorted_wrt_mono_rel [rotated])
  moreover obtain zs where "ranked = results @ zs" using pre by (auto simp: prefix_def)
  ultimately show "sorted_wrt (\<lambda>a b. js_ge (score a) (score b)) results"
    by (simp add: sorted_wrt_append)
  show "prefix (filter (\<lambda>r. score r = s) results)
          (filter (\<lambda>r. score r = s) (encountered st query (opt_category opts)))" for s
  proof -
    have 1: "prefix (filter (\<lambda>r. score r = s) results) (filter (\<lambda>r. score r = s) ranked)"
      using pre by (rule filter_mono_prefix)
    have 2: "filter (\<lambda>r. score r = s) ranked = filter (\<lambda>r. score r = s) passed"
      unfolding ranked_def using nn by (rule filter_score_sorted)
    show ?thesis
    proof (cases "js_ge s (Num (minScoreOf opts))")
      case True
      then have "filter (\<lambda>r. score r = s) passed = filter (\<lambda>r. score r = s) enc"
        unfolding passed_def by (auto intro: filter_cong)
      then show ?thesis using 1 2 by (simp add: enc_def)
    next
      case False
      then have "filter (\<lambda>r. score r = s) passed = []"
        unfolding passed_def by (auto simp: filter_empty_conv)
      then show ?thesis using 1 2 by simp
    qed
  qed
  show "length results \<le> nat (maxResultsOf opts)" if "0 \<le> maxResultsOf opts"
    unfolding res using that by (rule length_sliceTo)
qed

theorem search_ranked_witness:
  "initialized exampleIndex
   \<and> list_all (\<lambda>(cid, c). embedding c \<noteq> None) (documentChunks exampleIndex)
   \<and> map_sum id (map (\<lambda>r. (chunkId r, score r))) (search exampleIndex (js ''limit'') noOptions)
       = Inr [(js ''d2_0'', Num 1), (js ''d4_0'', Num 1), (js ''d1_0'', Num (3 / 5))]
   \<and> sorted_wrt (\<lambda>a b. js_ge (score a) (score b))
         (projr (search exampleIndex (js ''limit'') noOptions))
   \<and> length (projr (search exampleIndex (js ''limit'') noOptions)) \<le> nat (maxResultsOf noOptions)"
proof -
  let ?results = "projr (search exampleIndex (js ''limit'') noOptions)"
  have ev: "search exampleIndex (js ''limit'') noOptions = Inr ?results"
    using search_limit [of None] by (simp add: noOptions_def)
  have n: "0 \<le> maxResultsOf noOptions"
    by (simp add: maxResultsOf_def noOptions_def)
  from search_ranked [of exampleIndex "js ''limit''" noOptions] ev n
  have "sorted_wrt (\<lambda>a b. js_ge (score a) (score b)) ?results
      \<and> length ?results \<le> nat (maxResultsOf noOptions)"
    by blast
  moreover have "list_all (\<lambda>(cid, c). embedding c \<noteq> None) (documentChunks exampleIndex)"
    by (simp add: exampleIndex_chunks exampleChunk_def)
  moreover have "map_sum id (map (\<lambda>r. (chunkId r, score r)))
                   (search exampleIndex (js ''limit'') noOptions)
       = Inr [(js ''d2_0'', Num 1), (js ''d4_0'', Num 1), (js ''d1_0'', Num (3 / 5))]"
    using search_limit [of None] by (simp add: noOptions_def maxResultsOf_def sliceTo_def)
  ultimately show ?thesis using exampleIndex_initialized by blast
qed

theorem search_ranked_counterexample:
  "map_sum id length (search exampleIndex (js ''limit'') negativeLimit) = Inr 2
   \<and> maxResultsOf negativeLimit = - 1
   \<and> \<not> int 2 \<le> maxResultsOf negativeLimit"
  using search_limit [of "Some (- 1)"]
  by (simp add: negativeLimit_def maxResultsOf_def sliceTo_def)

text \<open>
  C4 (amended). For every empty or white-space-only \<^verbatim>\<open>query\<close> parameter the handler of
  GET /search answers 400 before it calls \<^verbatim>\<open>search\<close>. \<^verbatim>\<open>search\<close> itself validates
  nothing: given such a query on an initialized index whose passages have embeddings it
  returns a list, which is empty when \<^verbatim>\<open>minScore\<close> is positive and holds only passages of
  score 0 otherwise.
\<close>

theorem blank_query:
  assumes "list_all isWhiteSpace q"
  shows "searchRoute st (Text q) routeOpts = BadRequest
       \<and> (initialized st \<and> list_all (\<lambda>(cid, c). embedding c \<noteq> None) (documentChunks st) \<longrightarrow>
            (\<exists>results. search st q opts = Inr results
               \<and> (0 < minScoreOf opts \<longrightarrow> results = [])
               \<and> (\<forall>r \<in> set results. score r = Num 0)))"
  using assms search_blank [OF assms, of st opts]
  by (simp add: searchRoute_def trim_blank)

theorem blank_query_witness:
  "list_all isWhiteSpace (js ''  '')
   \<and> searchRoute exampleIndex (Text (js ''  '')) noOptions = BadRequest
   \<and> search exampleIndex (js ''  '') noOptions = Inr []"
proof -
  have h: "list_all isWhiteSpace (js ''  '')"
    by (simp add: js_def isWhiteSpace_def)
  have m: "0 < minScoreOf noOptions"
    by (simp add: minScoreOf_def noOptions_def)
  from blank_query [OF h, of exampleIndex noOptions noOptions]
    exampleIndex_initialized exampleIndex_embedded m
  have "searchRoute exampleIndex (Text (js ''  '')) noOptions = BadRequest"
    and "search exampleIndex (js ''  '') noOptions = Inr []"
    by auto
  then show ?thesis using h by simp
qed

theorem blank_query_counterexample:
  "initialized exampleIndex
   \<and> search exampleIndex (js []) noOptions = Inr []
   \<and> search exampleIndex (js ''  '') noOptions = Inr []"
proof -
  have h: "list_all isWhiteSpace (js ''  '')"
    by (simp add: js_def isWhiteSpace_def)
  have h0: "list_all isWhiteSpace (js [])"
    by (simp add: js_def)
  have m: "0 < minScoreOf noOptions"
    by (simp add: minScoreOf_def noOptions_def)
  show ?thesis
    using search_blank [OF h exampleIndex_initialized exampleIndex_embedded, of noOptions]
      search_blank [OF h0 exampleIndex_initialized exampleIndex_embedded, of noOptions]
      m exampleIndex_initialized
    by auto
qed

text \<open>
  C9. \<^verbatim>\<open>answerQuestion\<close> calls \<^verbatim>\<open>search\<close> with \<^verbatim>\<open>{ maxResults: 3 }\<close>, so with the default
  \<^verbatim>\<open>minScore\<close> 0.1 and no category, and passes an error of \<^verbatim>\<open>search\<close> on. What it returns
  holds the list \<^verbatim>\<open>search\<close> returned (at most three passages, each of score at least 0.1);
  its context text is the bodies of these passages joined by two newlines, followed, when
  there are supplementary context lines, by two newlines and these lines joined by one
  newline; and \<^verbatim>\<open>hasRelevantInfo\<close> is true exactly when the list has at least one passage.
  On an initialized index whose passages all have embeddings it does return.
\<close>

theorem answerQuestion_context:
  "(initialized st \<and> list_all (\<lambda>(cid, c). embedding c \<noteq> None) (documentChunks st)
      \<longrightarrow> (\<exists>a. answerQuestion st q ctx = Inr a))
   \<and> (\<forall>a. answerQuestion st q ctx = Inr a \<longrightarrow>
         search st q \<lparr>opt_category = None, opt_maxResults = Some 3, opt_minScore = None\<rparr>
           = Inr (searchResults a)
       \<and> length (searchResults a) \<le> 3
       \<and> (\<forall>r \<in> set (searchResults a). js_ge (score r) (Num (1 / 10)))
       \<and> answerContext a
           = join [10, 10] (map (\<lambda>r. content (chunk r)) (searchResults a))
             @ (if ctx = [] then [] else [10, 10] @ join [10] ctx)
       \<and> hasRelevantInfo a = (1 \<le> length (searchResults a))
       \<and> question a = q)
   \<and> (\<forall>e. search st q \<lparr>opt_category = None, opt_maxResults = Some 3, opt_minScore = None\<rparr> = Inl e
         \<longrightarrow> answerQuestion st q ctx = Inl e)"
proof (intro conjI allI impI)
  assume "initialized st \<and> list_all (\<lambda>(cid, c). embedding c \<noteq> None) (documentChunks st)"
  then obtain rs where "search st q answerOptions = Inr rs"
    using search_returns by blast
  then show "\<exists>a. answerQuestion st q ctx = Inr a"
    by (simp add: answerQuestion_def Let_def)
next
  fix a
  assume a: "answerQuestion st q ctx = Inr a"
  then obtain rs where rs: "search st q answerOptions = Inr rs"
    by (auto simp: answerQuestion_def split: sum.splits)
  have sr: "searchResults a = rs" and
    ct: "answerContext a = (if length rs > 0 then join [10, 10] (map (\<lambda>r. content (chunk r)) rs) else [])
            @ (if length ctx > 0 then [10, 10] @ join [10] ctx else [])" and
    hr: "hasRelevantInfo a = (length rs > 0)" and qu: "question a = q"
    using a rs by (auto simp: answerQuestion_def Let_def)
  show "search st q \<lparr>opt_category = None, opt_maxResults = Some 3, opt_minScore = None\<rparr>
           = Inr (searchResults a)"
    using rs sr by (simp add: answerOptions_def)
  show "length (searchResults a) \<le> 3"
    using search_Inr_bounds(2) [OF rs] sr by (simp add: answerOptions_def maxResultsOf_def)
  show "\<forall>r \<in> set (searchResults a). js_ge (score r) (Num (1 / 10))"
    using search_Inr_bounds(1) [OF rs] sr by (auto simp: answerOptions_def minScoreOf_def)
  show "answerContext a
           = join [10, 10] (map (\<lambda>r. content (chunk r)) (searchResults a))
             @ (if ctx = [] then [] else [10, 10] @ join [10] ctx)"
    using ct sr by (cases rs) auto
  show "hasRelevantInfo a = (1 \<le> length (searchResults a))"
    using hr sr by (cases rs) auto
  show "question a = q" by (rule qu)
next
  fix e
  assume "search st q \<lparr>opt_category = None, opt_maxResults = Some 3, opt_minScore = None\<rparr> = Inl e"
  then show "answerQuestion st q ctx = Inl e"
    by (simp add: answerQuestion_def answerOptions_def)
qed

theorem answerQuestion_context_witness:
  "initialized exampleIndex
   \<and> list_all (\<lambda>(cid, c). embedding c \<noteq> None) (documentChunks exampleIndex)
   \<and> map_sum id (\<lambda>a. (answerContext a, hasRelevantInfo a, map chunkId (searchResults a)))
        (answerQuestion exampleIndex (js ''limit'') [js ''ek bilgi'', js ''not''])
       = Inr (js ''limit.'' @ [10, 10] @ js ''Limit..'' @ [10, 10]
                @ js ''limit limit limit turev turev turev turev.''
                @ [10, 10] @ js ''ek bilgi'' @ [10] @ js ''not'',
              True, [js ''d2_0'', js ''d4_0'', js ''d1_0''])"
proof -
  obtain a where a: "answerQuestion exampleIndex (js ''limit'') [js ''ek bilgi'', js ''not''] = Inr a"
    using answerQuestion_context [of exampleIndex "js ''limit''" "[js ''ek bilgi'', js ''not'']"]
      exampleIndex_initialized exampleIndex_embedded
    by blast
  from answerQuestion_context [of exampleIndex "js ''limit''" "[js ''ek bilgi'', js ''not'']"] a
  have s: "search exampleIndex (js ''limit'')
             \<lparr>opt_category = None, opt_maxResults = Some 3, opt_minScore = None\<rparr>
           = Inr (searchResults a)"
    and c: "answerContext a
           = join [10, 10] (map (\<lambda>r. content (chunk r)) (searchResults a))
             @ (if [js ''ek bilgi'', js ''not''] = [] then [] else [10, 10] @ join [10] [js ''ek bilgi'', js ''not''])"
    and h: "hasRelevantInfo a = (1 \<le> length (searchResults a))"
    by blast+
  have sr: "searchResults a =
       [\<lparr>chunkId = js ''d2_0'', score = Num 1,
         chunk = exampleChunk ''d2'' ''math'' ''limit.'' [(js ''limit'', Num 1)]\<rparr>,
        \<lparr>chunkId = js ''d4_0'', score = Num 1,
         chunk = exampleChunk ''d4'' ''math'' ''Limit..'' [(js ''limit'', Num 1)]\<rparr>,
        \<lparr>chunkId = js ''d1_0'', score = Num (3 / 5),
         chunk = exampleChunk ''d1'' ''math'' ''limit limit limit turev turev turev turev.''
                      [(js ''limit'', Num (3 / 7)), (js ''turev'', Num (4 / 7))]\<rparr>]"
    using s search_limit [of "Some 3"] by (simp add: maxResultsOf_def sliceTo_def)
  show ?thesis
    using a c h exampleIndex_initialized exampleIndex_embedded
    by (simp add: sr exampleChunk_def)
qed

text \<open>
  C8. While \<^verbatim>\<open>initialized\<close> is still false, \<^verbatim>\<open>search\<close> throws the error
  \<^verbatim>\<open>'RAG system not initialized'\<close> for every query and every option set; it does not
  return a list, empty or not.
\<close>

theorem search_not_initialized:
  assumes "\<not> initialized st"
  shows "search st query opts = Inl NotInitialized \<and> (\<forall>results. search st query opts \<noteq> Inr results)"
  using assms by (simp add: search_def)

theorem search_not_initialized_witness:
  "\<not> initialized newRAGSystem
   \<and> search newRAGSystem (js ''turev'') answerOptions = Inl NotInitialized
   \<and> search newRAGSystem (js ''turev'') answerOptions \<noteq> Inr []"
proof -
  have h: "\<not> initialized newRAGSystem" by (simp add: newRAGSystem_def)
  show ?thesis using h search_not_initialized [OF h, of "js ''turev''" answerOptions] by simp
qed


end
